theory Spec2Isabelle
  imports Complex_Main "HOL-Library.Word" "HOL-Library.Extended_Nat" "HOL-Library.AList" "HOL-Library.Multiset"
begin

section \<open>Data model\<close>

text \<open>
  The kernels are compiled with the signature \<^verbatim>\<open>void(i4[:, :], i4[:, :])\<close>: processing and
  completion times are 32-bit signed integers. A matrix is the list of its rows.
\<close>

type_synonym int32 = "32 word"
type_synonym matrix = "int32 list list"

datatype error = IndexError | ValueError | TypeError

definition has_shape :: "nat \<Rightarrow> nat \<Rightarrow> 'a list list \<Rightarrow> bool" where
  "has_shape n m a = (length a = n \<and> list_all (\<lambda>r. length r = m) a)"

definition nrows :: "'a list list \<Rightarrow> nat" where
  "nrows p = length p"

definition ncols :: "'a list list \<Rightarrow> nat" where
  "ncols p = (case p of [] \<Rightarrow> 0 | r # _ \<Rightarrow> length r)"

section \<open>objective.py: the completion-time kernel\<close>

text \<open>\<^verbatim>\<open>max\<close> on two \<^verbatim>\<open>i4\<close> values compares them as signed integers.\<close>

definition smax :: "int32 \<Rightarrow> int32 \<Rightarrow> int32" where
  "smax a b = (if a <s b then b else a)"

text \<open>
  \<^verbatim>\<open>np.cumsum\<close>: running sums. The sums are stored into the \<^verbatim>\<open>i4\<close> buffer, which keeps
  their low 32 bits, so they are the wrapping sums.
\<close>

fun cumsum_from :: "int32 \<Rightarrow> int32 list \<Rightarrow> int32 list" where
  "cumsum_from acc [] = []"
| "cumsum_from acc (x # xs) = (acc + x) # cumsum_from (acc + x) xs"

definition cumsum :: "int32 list \<Rightarrow> int32 list" where
  "cumsum xs = cumsum_from 0 xs"

definition column :: "'a list list \<Rightarrow> nat \<Rightarrow> 'a list" where
  "column a j = map (\<lambda>r. r ! j) a"

text \<open>\<^verbatim>\<open>c[:, 0] = xs\<close>, \<^verbatim>\<open>c[0, :] = xs\<close> and \<^verbatim>\<open>c[i, j] = v\<close> on the buffer.\<close>

definition set_col0 :: "matrix \<Rightarrow> int32 list \<Rightarrow> matrix" where
  "set_col0 c xs = map2 (\<lambda>row x. row[0 := x]) c xs"

definition set_row0 :: "matrix \<Rightarrow> int32 list \<Rightarrow> matrix" where
  "set_row0 c xs = c[0 := xs]"

definition set_cell :: "matrix \<Rightarrow> nat \<Rightarrow> nat \<Rightarrow> int32 \<Rightarrow> matrix" where
  "set_cell c i j v = c[i := (c ! i)[j := v]]"

text \<open>The body of the inner loop, the inner loop over \<open>j\<close> and the outer loop over \<open>i\<close>.\<close>

definition cell_step :: "matrix \<Rightarrow> nat \<Rightarrow> nat \<Rightarrow> matrix \<Rightarrow> matrix" where
  "cell_step p i j c = set_cell c i j (smax (c ! (i - 1) ! j) (c ! i ! (j - 1)) + p ! i ! j)"

definition row_loop :: "matrix \<Rightarrow> nat \<Rightarrow> nat \<Rightarrow> matrix \<Rightarrow> matrix" where
  "row_loop p m i c = fold (cell_step p i) [1..<m] c"

text \<open>
  \<^verbatim>\<open>computation_times(c, p)\<close> writes into the buffer \<open>c\<close>; the model returns the buffer after
  the call. \<open>None\<close> stands for the calls outside the kernel's contract: an empty \<open>p\<close>
  (\<^verbatim>\<open>p[0, :]\<close>, \<^verbatim>\<open>p[:, 0]\<close> are out of range) and a buffer whose shape is not the shape of
  \<open>p\<close> (the assignment of the running sums is rejected, or broadcasts a single row).
\<close>

definition computation_times :: "matrix \<Rightarrow> matrix \<Rightarrow> matrix option" where
  "computation_times c p =
     (let n = nrows p; m = ncols p in
      if n = 0 \<or> m = 0 \<or> \<not> has_shape n m p \<or> \<not> has_shape n m c then None
      else
        let c1 = set_col0 c (cumsum (column p 0));
            c2 = set_row0 c1 (cumsum (p ! 0))
        in Some (fold (row_loop p m) [1..<n] c2))"

text \<open>
  The flow-shop recurrence as the specification words it, on the same 32-bit values.
\<close>

fun completion_rec :: "matrix \<Rightarrow> nat \<Rightarrow> nat \<Rightarrow> int32" where
  "completion_rec p 0 0 = p ! 0 ! 0"
| "completion_rec p (Suc i) 0 = completion_rec p i 0 + p ! Suc i ! 0"
| "completion_rec p 0 (Suc j) = completion_rec p 0 j + p ! 0 ! Suc j"
| "completion_rec p (Suc i) (Suc j) =
     smax (completion_rec p i (Suc j)) (completion_rec p (Suc i) j) + p ! Suc i ! Suc j"

text \<open>
  The same recurrence over the integers, with the processing times read as signed numbers,
  and the range of a 32-bit signed integer.
\<close>

fun completion_int :: "matrix \<Rightarrow> nat \<Rightarrow> nat \<Rightarrow> int" where
  "completion_int p 0 0 = sint (p ! 0 ! 0)"
| "completion_int p (Suc i) 0 = completion_int p i 0 + sint (p ! Suc i ! 0)"
| "completion_int p 0 (Suc j) = completion_int p 0 j + sint (p ! 0 ! Suc j)"
| "completion_int p (Suc i) (Suc j) =
     max (completion_int p i (Suc j)) (completion_int p (Suc i) j) + sint (p ! Suc i ! Suc j)"

definition fits_int32 :: "int \<Rightarrow> bool" where
  "fits_int32 v = (- (2 ^ 31) \<le> v \<and> v < 2 ^ 31)"

section \<open>instance.py and the objective functions of objective.py\<close>

text \<open>
  \<^verbatim>\<open>Instance\<close>: processing times \<^verbatim>\<open>p\<close> and the completion-time buffer \<^verbatim>\<open>c\<close> (\<^verbatim>\<open>int32\<close>,
  same shape), due dates \<^verbatim>\<open>d\<close> (\<^verbatim>\<open>int32\<close>) and weights \<^verbatim>\<open>w\<close> (the integers read by
  \<^verbatim>\<open>io.py\<close>, which \<^verbatim>\<open>np.asarray\<close> stores as \<^verbatim>\<open>int64\<close>). The attributes \<^verbatim>\<open>n\<close> and \<^verbatim>\<open>m\<close> are the
  shape of \<^verbatim>\<open>p\<close>. The fields carry the prefix \<open>inst_\<close>.
\<close>

type_synonym int64 = "64 word"

record Instance =
  inst_p :: matrix
  inst_c :: matrix
  inst_d :: "int32 list"
  inst_w :: "int64 list"

definition inst_n :: "Instance \<Rightarrow> nat" where
  "inst_n I = nrows (inst_p I)"

definition inst_m :: "Instance \<Rightarrow> nat" where
  "inst_m I = ncols (inst_p I)"

text \<open>What \<^verbatim>\<open>Instance.__init__\<close> establishes for \<open>n\<close> jobs and \<open>m\<close> machines.\<close>

definition instance_ok :: "nat \<Rightarrow> nat \<Rightarrow> Instance \<Rightarrow> bool" where
  "instance_ok n m I =
     (has_shape n m (inst_p I) \<and> has_shape n m (inst_c I) \<and>
      length (inst_d I) = n \<and> length (inst_w I) = n)"

text \<open>
  A solution is an array of job identifiers; the model keeps their integer values. Indexing
  an array of length \<open>n\<close> with \<open>s\<close> accepts \<open>-n \<le> s < n\<close>, negative values counting from
  the end, and raises \<^verbatim>\<open>IndexError\<close> otherwise. \<open>fancy_index a sol\<close> is \<^verbatim>\<open>a[sol]\<close>
  (\<^verbatim>\<open>a[sol, :]\<close> on a matrix).
\<close>

definition py_index :: "nat \<Rightarrow> int \<Rightarrow> nat option" where
  "py_index n s =
     (if 0 \<le> s \<and> s < int n then Some (nat s)
      else if - int n \<le> s \<and> s < 0 then Some (nat (int n + s))
      else None)"

fun fancy_index :: "'a list \<Rightarrow> int list \<Rightarrow> 'a list option" where
  "fancy_index a [] = Some []"
| "fancy_index a (s # sol) =
     (case py_index (length a) s of
        None \<Rightarrow> None
      | Some i \<Rightarrow> (case fancy_index a sol of None \<Rightarrow> None | Some r \<Rightarrow> Some (a ! i # r)))"

text \<open>\<open>sort sol = [0, 1, \<dots>, n - 1]\<close>: the solution is a permutation of the job identifiers.\<close>

definition is_permutation :: "nat \<Rightarrow> int list \<Rightarrow> bool" where
  "is_permutation n sol = (sort sol = map int [0..<n])"

text \<open>
  The decorator \<^verbatim>\<open>objective\<close>: with \<^verbatim>\<open>refresh\<close>, the buffer \<^verbatim>\<open>instance.c\<close> is first overwritten
  with the completion times of \<^verbatim>\<open>instance.p[solution, :]\<close>. The model returns the value
  together with the instance holding the buffer as the call leaves it.
\<close>

definition refresh_c :: "Instance \<Rightarrow> int list \<Rightarrow> error + Instance" where
  "refresh_c I sol =
     (case fancy_index (inst_p I) sol of
        None \<Rightarrow> Inl IndexError
      | Some ordered_p \<Rightarrow>
          (case computation_times (inst_c I) ordered_p of
             None \<Rightarrow> Inl ValueError
           | Some C \<Rightarrow> Inr (I\<lparr>inst_c := C\<rparr>)))"

definition objective ::
  "(Instance \<Rightarrow> int list \<Rightarrow> error + 'r) \<Rightarrow> Instance \<Rightarrow> int list \<Rightarrow> bool \<Rightarrow> error + ('r \<times> Instance)"
where
  "objective func I sol refresh =
     (case (if refresh then refresh_c I sol else Inr I) of
        Inl e \<Rightarrow> Inl e
      | Inr I' \<Rightarrow> (case func I' sol of Inl e \<Rightarrow> Inl e | Inr r \<Rightarrow> Inr (r, I')))"

text \<open>\<^verbatim>\<open>c[:, -1]\<close>, the last column; it does not exist when the matrix has no column.\<close>

definition last_column :: "'a list list \<Rightarrow> 'a list option" where
  "last_column a = (if list_ex (\<lambda>r. r = []) a then None else Some (map last a))"

text \<open>\<^verbatim>\<open>np.max\<close> of an \<^verbatim>\<open>int32\<close> vector; it raises on an empty one.\<close>

definition np_max :: "int32 list \<Rightarrow> int32 option" where
  "np_max xs = (case xs of [] \<Rightarrow> None | x # r \<Rightarrow> Some (fold (\<lambda>y acc. smax acc y) r x))"

definition makespan_body :: "Instance \<Rightarrow> int list \<Rightarrow> error + int32" where
  "makespan_body I sol =
     (case last_column (inst_c I) of
        None \<Rightarrow> Inl IndexError
      | Some col \<Rightarrow> (case np_max col of None \<Rightarrow> Inl ValueError | Some v \<Rightarrow> Inr v))"

definition makespan :: "Instance \<Rightarrow> int list \<Rightarrow> bool \<Rightarrow> error + (int32 \<times> Instance)" where
  "makespan = objective makespan_body"

text \<open>
  \<^verbatim>\<open>weighted_tardiness\<close>: the tardiness \<^verbatim>\<open>np.maximum(c[:, -1] - d, 0)\<close> is computed on
  \<^verbatim>\<open>int32\<close>, the dot product with the \<^verbatim>\<open>int64\<close> weights on \<^verbatim>\<open>int64\<close>.
\<close>

definition np_dot :: "int64 list \<Rightarrow> int32 list \<Rightarrow> int64" where
  "np_dot w t = sum_list (map2 (\<lambda>x y. x * scast y) w t)"

definition weighted_tardiness_body :: "Instance \<Rightarrow> int list \<Rightarrow> error + int64" where
  "weighted_tardiness_body I sol =
     (case fancy_index (inst_d I) sol of
        None \<Rightarrow> Inl IndexError
      | Some d \<Rightarrow>
     (case fancy_index (inst_w I) sol of
        None \<Rightarrow> Inl IndexError
      | Some w \<Rightarrow>
     (case last_column (inst_c I) of
        None \<Rightarrow> Inl IndexError
      | Some col \<Rightarrow>
          if length col \<noteq> length d then Inl ValueError
          else Inr (np_dot w (map2 (\<lambda>x y. smax (x - y) 0) col d)))))"

definition weighted_tardiness ::
  "Instance \<Rightarrow> int list \<Rightarrow> bool \<Rightarrow> error + (int64 \<times> Instance)" where
  "weighted_tardiness = objective weighted_tardiness_body"

section \<open>optimizer/base.py: budget and stopping\<close>

text \<open>
  \<^verbatim>\<open>BaseOptimizer\<close>. The fields are those of the class, with the prefix \<open>opt_\<close> in place of
  the leading underscore. \<^verbatim>\<open>np.inf\<close> is \<open>\<infinity>\<close>; \<^verbatim>\<open>None\<close> is \<open>None\<close> for the fields the code
  tests against \<^verbatim>\<open>None\<close>. The bound on the iterations is a number or \<^verbatim>\<open>np.inf\<close>, as documented
  and as \<^verbatim>\<open>run.py\<close> passes it. An entry of the history is the tuple of objective values.
  Time stamps are real numbers, and \<^verbatim>\<open>time.time()\<close> is the argument \<open>now\<close>.
\<close>

record base_optimizer =
  opt_objective :: "int list list"
  opt_max_n_iterations :: enat
  opt_n_iterations :: nat
  opt_early_stopping :: "enat option"
  opt_max_time :: "real option"
  opt_t0 :: "real option"
  opt_n_steps_without_improvement :: nat
  opt_seed :: "int option"

text \<open>\<^verbatim>\<open>BaseOptimizer.__init__\<close> on the fields of the base class.\<close>

definition base_init ::
  "enat \<Rightarrow> enat option \<Rightarrow> real option \<Rightarrow> int option \<Rightarrow> 'a \<Rightarrow> 'a base_optimizer_scheme" where
  "base_init n_iterations early_stopping max_time seed ext =
     \<lparr>opt_objective = [], opt_max_n_iterations = n_iterations, opt_n_iterations = 0,
      opt_early_stopping = early_stopping, opt_max_time = max_time, opt_t0 = None,
      opt_n_steps_without_improvement = 0, opt_seed = seed, \<dots> = ext\<rparr>"

text \<open>\<^verbatim>\<open>start\<close>; reseeding the random number generator leaves the fields alone.\<close>

definition start :: "'a base_optimizer_scheme \<Rightarrow> real \<Rightarrow> 'a base_optimizer_scheme" where
  "start st now =
     (let st1 = (if opt_max_time st \<noteq> None then st\<lparr>opt_t0 := Some now\<rparr> else st)
      in st1\<lparr>opt_n_iterations := 0, opt_n_steps_without_improvement := 0, opt_objective := []\<rparr>)"

definition step :: "'a base_optimizer_scheme \<Rightarrow> 'a base_optimizer_scheme" where
  "step st = st\<lparr>opt_n_iterations := opt_n_iterations st + 1\<rparr>"

text \<open>
  \<^verbatim>\<open>is_running\<close>. Comparing \<^verbatim>\<open>None\<close> with a number raises \<^verbatim>\<open>TypeError\<close>, which is the case of a
  start time without a time bound. The third test of the source guards on the counter
  \<^verbatim>\<open>_n_iterations\<close>, which is always a number.
\<close>

definition is_running :: "'a base_optimizer_scheme \<Rightarrow> real \<Rightarrow> error + bool" where
  "is_running st now =
     (case (case opt_t0 st of
              None \<Rightarrow> Inr False
            | Some t \<Rightarrow> (case opt_max_time st of
                          None \<Rightarrow> Inl TypeError
                        | Some mt \<Rightarrow> Inr (mt < now - t))) of
        Inl e \<Rightarrow> Inl e
      | Inr late \<Rightarrow>
          if late then Inr False
          else if (case opt_early_stopping st of
                     None \<Rightarrow> False
                   | Some es \<Rightarrow> enat (opt_n_steps_without_improvement st) > es) then Inr False
          else if enat (opt_n_iterations st) \<ge> opt_max_n_iterations st then Inr False
          else Inr True)"

text \<open>
  \<^verbatim>\<open>evaluate\<close>: the subclass's \<^verbatim>\<open>_evaluate\<close> is the argument \<open>inner\<close>; it returns the objective
  tuple and the improvement flag, with the optimizer and the instance as it leaves them.
\<close>

definition evaluate ::
  "('a base_optimizer_scheme \<Rightarrow> Instance \<Rightarrow> int list \<Rightarrow>
      error + ((int list \<times> bool) \<times> 'a base_optimizer_scheme \<times> Instance)) \<Rightarrow>
   'a base_optimizer_scheme \<Rightarrow> Instance \<Rightarrow> int list \<Rightarrow>
   error + (int \<times> 'a base_optimizer_scheme \<times> Instance)" where
  "evaluate inner st I sol =
     (case inner st I sol of
        Inl e \<Rightarrow> Inl e
      | Inr ((objectives, is_improvement), st1, I1) \<Rightarrow>
          let st2 = (if \<not> is_improvement
                     then st1\<lparr>opt_n_steps_without_improvement :=
                                 opt_n_steps_without_improvement st1 + 1\<rparr>
                     else st1\<lparr>opt_n_steps_without_improvement := 0\<rparr>);
              st3 = st2\<lparr>opt_objective := opt_objective st2 @ [objectives]\<rparr>
          in (case objectives of [] \<Rightarrow> Inl IndexError | z # _ \<Rightarrow> Inr (z, st3, I1)))"

section \<open>optimizer/optimizer.py: the single-objective optimizer\<close>

text \<open>\<^verbatim>\<open>Zbest\<close> starts at \<^verbatim>\<open>np.inf\<close>, which is \<open>None\<close> here, and \<^verbatim>\<open>best\<close> at \<^verbatim>\<open>None\<close>.\<close>

record optimizer = base_optimizer +
  opt_best :: "int list option"
  opt_Zbest :: "int option"

definition less_Zbest :: "int \<Rightarrow> int option \<Rightarrow> bool" where
  "less_Zbest wt z = (case z of None \<Rightarrow> True | Some b \<Rightarrow> wt < b)"

definition optimizer_evaluate ::
  "optimizer \<Rightarrow> Instance \<Rightarrow> int list \<Rightarrow> error + ((int list \<times> bool) \<times> optimizer \<times> Instance)" where
  "optimizer_evaluate st I sol =
     (case weighted_tardiness I sol True of
        Inl e \<Rightarrow> Inl e
      | Inr (wt, I1) \<Rightarrow>
          if less_Zbest (sint wt) (opt_Zbest st)
          then Inr (([sint wt], True), st\<lparr>opt_Zbest := Some (sint wt), opt_best := Some sol\<rparr>, I1)
          else Inr (([sint wt], False), st, I1))"

section \<open>optimizer/bioptimizer.py: the Pareto set\<close>

text \<open>
  A candidate is \<^verbatim>\<open>(wt, m, sol)\<close>. The Pareto set is a dictionary from \<^verbatim>\<open>(wt, m)\<close> to the
  solution, kept as an association list in insertion order; storing under a key that is
  present overwrites its value in place, storing under a new key appends.
\<close>

type_synonym candidate = "int \<times> int \<times> int list"
type_synonym pareto = "((int \<times> int) \<times> int list) list"

record bi_optimizer = base_optimizer +
  pareto_set :: pareto

definition dominates :: "candidate \<Rightarrow> candidate \<Rightarrow> bool" where
  "dominates a b =
     (case a of (wt_a, m_a, sol_a) \<Rightarrow> case b of (wt_b, m_b, sol_b) \<Rightarrow>
        wt_a \<le> wt_b \<and> m_a \<le> m_b \<and> (wt_a < wt_b \<or> m_a < m_b))"

text \<open>
  The loop of \<^verbatim>\<open>_evaluate\<close> over the items of the Pareto set, with the new set and the
  improvement flag as accumulators; the first component of the result is
  \<^verbatim>\<open>new_sol_is_dominated\<close>, set where the loop breaks.
\<close>

fun pareto_scan :: "pareto \<Rightarrow> candidate \<Rightarrow> pareto \<Rightarrow> bool \<Rightarrow> bool \<times> pareto \<times> bool" where
  "pareto_scan [] new new_pareto_set is_improvement = (False, new_pareto_set, is_improvement)"
| "pareto_scan (((wt, m), sol) # rest) new new_pareto_set is_improvement =
     (if dominates (wt, m, sol) new then (True, new_pareto_set, is_improvement)
      else if \<not> dominates new (wt, m, sol)
        then pareto_scan rest new (AList.update (wt, m) sol new_pareto_set) is_improvement
      else pareto_scan rest new new_pareto_set True)"

text \<open>The update of the Pareto set with a candidate: the new set and the improvement flag.\<close>

definition pareto_update :: "pareto \<Rightarrow> candidate \<Rightarrow> pareto \<times> bool" where
  "pareto_update ps new =
     (case pareto_scan ps new [] False of
        (new_sol_is_dominated, new_pareto_set, is_improvement) \<Rightarrow>
          (if \<not> new_sol_is_dominated
           then (case new of (new_wt, new_m, new_sol) \<Rightarrow>
                   AList.update (new_wt, new_m) new_sol new_pareto_set)
           else ps,
           is_improvement))"

definition bi_evaluate ::
  "bi_optimizer \<Rightarrow> Instance \<Rightarrow> int list \<Rightarrow>
     error + ((int list \<times> bool) \<times> bi_optimizer \<times> Instance)" where
  "bi_evaluate st I new_sol =
     (case weighted_tardiness I new_sol True of
        Inl e \<Rightarrow> Inl e
      | Inr (new_wt, I1) \<Rightarrow>
     (case makespan I1 new_sol False of
        Inl e \<Rightarrow> Inl e
      | Inr (new_m, I2) \<Rightarrow>
          (case pareto_update (pareto_set st) (sint new_wt, sint new_m, new_sol) of
             (ps, is_improvement) \<Rightarrow>
               Inr (([sint new_wt, sint new_m], is_improvement), st\<lparr>pareto_set := ps\<rparr>, I2))))"

text \<open>An entry of the Pareto set as a candidate, and the invariant of the set.\<close>

definition entry :: "(int \<times> int) \<times> int list \<Rightarrow> candidate" where
  "entry e = (fst (fst e), snd (fst e), snd e)"

definition mutually_nondominated :: "pareto \<Rightarrow> bool" where
  "mutually_nondominated ps = (\<forall>a\<in>set ps. \<forall>b\<in>set ps. \<not> dominates (entry a) (entry b))"

text \<open>
  The states \<^verbatim>\<open>__init__\<close> and \<^verbatim>\<open>start\<close> produce: a start time is recorded only when a time
  bound is set.
\<close>

definition opt_ok :: "'a base_optimizer_scheme \<Rightarrow> bool" where
  "opt_ok st = (opt_t0 st \<noteq> None \<longrightarrow> opt_max_time st \<noteq> None)"

section \<open>aco/base.py, aco/mmas.py, aco/paco.py: pheromone policies\<close>

text \<open>
  The colony: the fields of \<^verbatim>\<open>ACO\<close> and of its two subclasses, with the prefix \<open>aco_\<close>, and
  a tag for the subclass. The optimizer is the single-objective \<^verbatim>\<open>Optimizer\<close> that
  \<^verbatim>\<open>run.py\<close> and \<^verbatim>\<open>hpo.py\<close> pass. An ant is its array of job identifiers.
\<close>

text \<open>
  Pheromone values are NumPy floats. A finite value is a real number here (rounding and the
  overflow of finite values are left out); \<^verbatim>\<open>inf\<close>, \<^verbatim>\<open>-inf\<close> and \<^verbatim>\<open>nan\<close> are values of their
  own, since NumPy answers a division by zero with an infinity and a \<^verbatim>\<open>RuntimeWarning\<close>, not
  with an exception, and the call goes on.
\<close>

datatype np_float = Fin real | PInf | NInf | NaN

text \<open>
  \<^verbatim>\<open>1. / d\<close> for a finite \<open>d\<close>; when \<open>d\<close> is zero the result is the infinity of the sign of that
  zero (\<open>negative_zero\<close> tells whether \<open>d\<close> is \<^verbatim>\<open>-0.0\<close>).
\<close>

definition np_reciprocal :: "real \<Rightarrow> bool \<Rightarrow> np_float" where
  "np_reciprocal d negative_zero =
     (if d = 0 then (if negative_zero then NInf else PInf) else Fin (1 / d))"

text \<open>\<^verbatim>\<open>x * r\<close> for a finite \<open>r\<close>, and \<^verbatim>\<open>x / r\<close> for a finite non-zero \<open>r\<close>.\<close>

fun np_mul :: "np_float \<Rightarrow> real \<Rightarrow> np_float" where
  "np_mul (Fin x) r = Fin (x * r)"
| "np_mul PInf r = (if r = 0 then NaN else if 0 < r then PInf else NInf)"
| "np_mul NInf r = (if r = 0 then NaN else if 0 < r then NInf else PInf)"
| "np_mul NaN r = NaN"

fun np_div :: "np_float \<Rightarrow> real \<Rightarrow> np_float" where
  "np_div (Fin x) r = Fin (x / r)"
| "np_div PInf r = (if 0 < r then PInf else NInf)"
| "np_div NInf r = (if 0 < r then NInf else PInf)"
| "np_div NaN r = NaN"

text \<open>\<^verbatim>\<open>x + y\<close>.\<close>

fun np_add :: "np_float \<Rightarrow> np_float \<Rightarrow> np_float" where
  "np_add (Fin x) (Fin y) = Fin (x + y)"
| "np_add NaN y = NaN"
| "np_add x NaN = NaN"
| "np_add PInf NInf = NaN"
| "np_add NInf PInf = NaN"
| "np_add PInf y = PInf"
| "np_add x PInf = PInf"
| "np_add NInf y = NInf"
| "np_add x NInf = NInf"

text \<open>\<^verbatim>\<open>x < y\<close>, which is false when either side is \<^verbatim>\<open>nan\<close>.\<close>

fun np_less :: "np_float \<Rightarrow> np_float \<Rightarrow> bool" where
  "np_less (Fin x) (Fin y) = (x < y)"
| "np_less NaN y = False"
| "np_less x NaN = False"
| "np_less x NInf = False"
| "np_less PInf y = False"
| "np_less NInf y = True"
| "np_less x PInf = True"

text \<open>
  \<^verbatim>\<open>np.maximum\<close>, \<^verbatim>\<open>np.minimum\<close>, which hand on a \<^verbatim>\<open>nan\<close>, and \<^verbatim>\<open>np.clip(x, lo, hi)\<close>, which is
  \<^verbatim>\<open>np.minimum(np.maximum(x, lo), hi)\<close>.
\<close>

definition np_maximum :: "np_float \<Rightarrow> np_float \<Rightarrow> np_float" where
  "np_maximum a b = (if a = NaN then a else if b = NaN then b else if np_less a b then b else a)"

definition np_minimum :: "np_float \<Rightarrow> np_float \<Rightarrow> np_float" where
  "np_minimum a b = (if a = NaN then a else if b = NaN then b else if np_less b a then b else a)"

definition np_clip :: "np_float \<Rightarrow> np_float \<Rightarrow> np_float \<Rightarrow> np_float" where
  "np_clip lo hi x = np_minimum (np_maximum x lo) hi"

definition is_inf :: "np_float \<Rightarrow> bool" where
  "is_inf x = (x = PInf \<or> x = NInf)"

datatype policy = MMAS | PACO

datatype local_search_kind = LsNone | LsSwap | LsInterchange | LsInsertion

record aco =
  aco_policy :: policy
  aco_optimizer :: optimizer
  aco_n_ants :: nat
  aco_rho :: real
  aco_ls :: local_search_kind
  aco_tau :: "np_float list list"
  aco_best :: "int list"
  aco_Zbest :: int
  aco_instance :: Instance
  aco_tau_min :: np_float
  aco_tau_max :: np_float
  aco_seed_ant :: "int list option"

text \<open>\<^verbatim>\<open>ACO.evaluate\<close>: the optimizer evaluates the ant on the colony's instance.\<close>

definition aco_evaluate :: "aco \<Rightarrow> int list \<Rightarrow> error + (int \<times> aco)" where
  "aco_evaluate A ant =
     (case evaluate optimizer_evaluate (aco_optimizer A) (aco_instance A) ant of
        Inl e \<Rightarrow> Inl e
      | Inr (z, st, I) \<Rightarrow> Inr (z, A\<lparr>aco_optimizer := st, aco_instance := I\<rparr>))"

definition pheromones_are_individual :: "policy \<Rightarrow> bool" where
  "pheromones_are_individual pol = (case pol of MMAS \<Rightarrow> False | PACO \<Rightarrow> True)"

text \<open>
  \<^verbatim>\<open>np.argsort\<close> of an array: the indices in the order of their values. On a permutation it
  is the inverse permutation, whatever the sorting algorithm.
\<close>

definition np_argsort :: "int list \<Rightarrow> int list" where
  "np_argsort xs = map int (sort_key (\<lambda>i. xs ! i) [0..<length xs])"

text \<open>
  \<^verbatim>\<open>MMAS.update_parameters\<close> and \<^verbatim>\<open>PACO.update_parameters\<close>. The divisor
  \<^verbatim>\<open>(1. - self.rho) * self._Zbest\<close> is a product of two finite numbers; when it is zero it is
  \<^verbatim>\<open>-0.0\<close> if exactly one factor is negative.
\<close>

definition mmas_update_parameters :: "aco \<Rightarrow> aco" where
  "mmas_update_parameters A =
     (let divisor = (1 - aco_rho A) * real_of_int (aco_Zbest A);
          negative_zero = ((1 - aco_rho A < 0) \<noteq> (aco_Zbest A < 0));
          tau_max = np_reciprocal divisor negative_zero
      in A\<lparr>aco_tau_max := tau_max, aco_tau_min := np_div tau_max 5\<rparr>)"

definition update_parameters :: "aco \<Rightarrow> aco" where
  "update_parameters A =
     (case aco_policy A of MMAS \<Rightarrow> mmas_update_parameters A | PACO \<Rightarrow> A)"

text \<open>
  \<^verbatim>\<open>MMAS.init_pheromones\<close> and \<^verbatim>\<open>PACO.init_pheromones\<close>. In the latter every trail starts at
  \<^verbatim>\<open>1. / self._Zbest\<close> (\<open>paco_initial_trail\<close>), where \<^verbatim>\<open>_Zbest\<close> is an integer, and is halved where
  \<^verbatim>\<open>n / 4. < diff\<close> and again where \<^verbatim>\<open>n / 2. <= diff\<close>; the Boolean masks have the shape of
  \<^verbatim>\<open>diff\<close>, which is that of the trails only if the best sequence has \<open>n\<close> entries.
\<close>

definition mmas_init_pheromones :: "aco \<Rightarrow> error + aco" where
  "mmas_init_pheromones A =
     (let n = inst_n (aco_instance A)
      in Inr (A\<lparr>aco_tau := replicate n (replicate n (aco_tau_max A))\<rparr>))"

definition paco_init_cell :: "nat \<Rightarrow> np_float \<Rightarrow> int \<Rightarrow> np_float" where
  "paco_init_cell n t diff =
     (let t1 = (if real n / 4 < real_of_int diff then np_div t 2 else t)
      in if real n / 2 \<le> real_of_int diff then np_div t1 2 else t1)"

definition paco_initial_trail :: "aco \<Rightarrow> np_float" where
  "paco_initial_trail A = np_reciprocal (real_of_int (aco_Zbest A)) False"

definition paco_init_pheromones :: "aco \<Rightarrow> error + aco" where
  "paco_init_pheromones A =
     (let n = inst_n (aco_instance A);
          t = paco_initial_trail A
      in
      if length (aco_best A) \<noteq> n then Inl IndexError
      else
        let h = np_argsort (aco_best A)
        in Inr (A\<lparr>aco_seed_ant := Some (aco_best A),
                  aco_tau := map (\<lambda>i. map (\<lambda>k. paco_init_cell n t (\<bar>h ! i - int k\<bar> + 1))
                                        [0..<n]) [0..<n]\<rparr>))"

definition init_pheromones :: "aco \<Rightarrow> error + aco" where
  "init_pheromones A =
     (case aco_policy A of MMAS \<Rightarrow> mmas_init_pheromones A | PACO \<Rightarrow> paco_init_pheromones A)"

text \<open>
  \<^verbatim>\<open>MMAS.update_pheromones\<close>: evaluate the ant, evaporate, deposit \<^verbatim>\<open>1. / Zcurrent\<close> on
  \<^verbatim>\<open>tau[indices[k], k]\<close>, clip. The score \<^verbatim>\<open>Zcurrent\<close> is an integer; when it is zero the
  deposit is \<^verbatim>\<open>inf\<close>.
\<close>

fun index_all :: "nat \<Rightarrow> int list \<Rightarrow> nat list option" where
  "index_all n [] = Some []"
| "index_all n (s # sol) =
     (case py_index n s of
        None \<Rightarrow> None
      | Some i \<Rightarrow> (case index_all n sol of None \<Rightarrow> None | Some r \<Rightarrow> Some (i # r)))"

definition add_cell ::
  "np_float list list \<Rightarrow> nat \<Rightarrow> nat \<Rightarrow> np_float \<Rightarrow> np_float list list" where
  "add_cell t i k v = t[i := (t ! i)[k := np_add (t ! i ! k) v]]"

definition mmas_update_pheromones :: "aco \<Rightarrow> int list \<Rightarrow> error + aco" where
  "mmas_update_pheromones A ant =
     (case aco_evaluate A ant of
        Inl e \<Rightarrow> Inl e
      | Inr (Zcurrent, A1) \<Rightarrow>
          let n = inst_n (aco_instance A1) in
          if \<not> (length ant = n \<and> has_shape n n (aco_tau A1)) then Inl ValueError
          else
            (case index_all n ant of
               None \<Rightarrow> Inl IndexError
             | Some indices \<Rightarrow>
                 let tau1 = map (map (\<lambda>x. np_mul x (aco_rho A1))) (aco_tau A1);
                     deposit = np_reciprocal (real_of_int Zcurrent) False;
                     tau2 = fold (\<lambda>k t. add_cell t (indices ! k) k deposit) [0..<n] tau1;
                     tau3 = map (map (np_clip (aco_tau_min A1) (aco_tau_max A1))) tau2
                 in Inr (A1\<lparr>aco_tau := tau3\<rparr>)))"

text \<open>
  \<^verbatim>\<open>PACO.update_pheromones\<close>: evaluate the ant; \<^verbatim>\<open>h = argsort(ant)\<close>; \<^verbatim>\<open>h_best\<close> is the array
  \<^verbatim>\<open>self._best.asarray()\<close> itself; \<^verbatim>\<open>diff[i, k] = sqrt(|h_best[i] - k| + 1)\<close>; evaporate;
  deposit \<^verbatim>\<open>1. / (diff[i, k] * Zcurrent)\<close> where \<^verbatim>\<open>|h[i] - k| <= bound\<close>. The divisor is zero
  when the score is, and the deposit is then \<^verbatim>\<open>inf\<close>.
\<close>

definition paco_update_pheromones :: "aco \<Rightarrow> int list \<Rightarrow> error + aco" where
  "paco_update_pheromones A ant =
     (case aco_evaluate A ant of
        Inl e \<Rightarrow> Inl e
      | Inr (Zcurrent, A1) \<Rightarrow>
          let n = inst_n (aco_instance A1);
              h = np_argsort ant;
              h_best = aco_best A1;
              bound = (if n \<le> 40 then 1 else 2 :: int)
          in
          if \<not> (length ant = n \<and> length h_best = n \<and> has_shape n n (aco_tau A1))
            then Inl ValueError
          else Inr (A1\<lparr>aco_tau :=
                 map (\<lambda>i. map (\<lambda>k.
                        let t = np_mul (aco_tau A1 ! i ! k) (aco_rho A1) in
                        if \<bar>h ! i - int k\<bar> \<le> bound
                        then np_add t
                               (np_reciprocal (sqrt (real_of_int \<bar>h_best ! i - int k\<bar> + 1) *
                                               real_of_int Zcurrent) False)
                        else t) [0..<n]) [0..<n]\<rparr>))"

definition update_pheromones :: "aco \<Rightarrow> int list \<Rightarrow> error + aco" where
  "update_pheromones A ant =
     (case aco_policy A of
        MMAS \<Rightarrow> mmas_update_pheromones A ant
      | PACO \<Rightarrow> paco_update_pheromones A ant)"

text \<open>
  \<^verbatim>\<open>ACO.step\<close>. The ants that \<^verbatim>\<open>create_solution\<close> and \<^verbatim>\<open>local_search\<close> produce in the
  iterations of the loop and the times at which \<^verbatim>\<open>is_running\<close> reads the clock are the
  argument \<open>ants\<close>, one pair per iteration of \<^verbatim>\<open>range(self.n_ants)\<close>. The accumulator holds
  the local lists \<^verbatim>\<open>solutions\<close> and \<^verbatim>\<open>scores\<close>, which the model returns with the colony.
\<close>

fun ant_loop ::
  "aco \<Rightarrow> (int list \<times> real) list \<Rightarrow> (int list \<times> int) list \<Rightarrow>
     error + (aco \<times> (int list \<times> int) list)" where
  "ant_loop A [] evaluated = Inr (A, evaluated)"
| "ant_loop A ((ant, now) # rest) evaluated =
     (case (if pheromones_are_individual (aco_policy A) then update_pheromones A ant
            else Inr A) of
        Inl e \<Rightarrow> Inl e
      | Inr A1 \<Rightarrow>
     (case aco_evaluate A1 ant of
        Inl e \<Rightarrow> Inl e
      | Inr (score, A2) \<Rightarrow>
          let A3 = (if score < aco_Zbest A2 then A2\<lparr>aco_Zbest := score, aco_best := ant\<rparr>
                    else A2)
          in (case is_running (aco_optimizer A3) now of
                Inl e \<Rightarrow> Inl e
              | Inr running \<Rightarrow>
                  if \<not> running then Inr (A3, evaluated @ [(ant, score)])
                  else ant_loop A3 rest (evaluated @ [(ant, score)]))))"

text \<open>\<^verbatim>\<open>np.argmin\<close>: the first index of a least value.\<close>

fun np_argmin_from :: "nat \<Rightarrow> int \<Rightarrow> nat \<Rightarrow> int list \<Rightarrow> nat" where
  "np_argmin_from best_i best_v i [] = best_i"
| "np_argmin_from best_i best_v i (x # xs) =
     (if x < best_v then np_argmin_from i x (Suc i) xs
      else np_argmin_from best_i best_v (Suc i) xs)"

definition np_argmin :: "int list \<Rightarrow> nat option" where
  "np_argmin xs = (case xs of [] \<Rightarrow> None | x # r \<Rightarrow> Some (np_argmin_from 0 x 1 r))"

definition aco_step ::
  "aco \<Rightarrow> (int list \<times> real) list \<Rightarrow> error + (aco \<times> (int list \<times> int) list)" where
  "aco_step A ants =
     (case ant_loop A (take (aco_n_ants A) ants) [] of
        Inl e \<Rightarrow> Inl e
      | Inr (A1, evaluated) \<Rightarrow>
          (case np_argmin (map snd evaluated) of
             None \<Rightarrow> Inl ValueError
           | Some x \<Rightarrow>
               (case (if \<not> pheromones_are_individual (aco_policy A1)
                      then update_pheromones A1 (fst (evaluated ! x)) else Inr A1) of
                  Inl e \<Rightarrow> Inl e
                | Inr A2 \<Rightarrow> Inr (update_parameters A2, evaluated))))"

text \<open>
  What \<^verbatim>\<open>ACO.initialize\<close> establishes on an instance of \<open>n\<close> jobs and \<open>m\<close> machines: the
  trails are an \<open>n \<times> n\<close> array and the best sequence has \<open>n\<close> entries. An ant that
  \<^verbatim>\<open>evaluate\<close> accepts has \<open>n\<close> entries, each an index into an array of length \<open>n\<close>.
\<close>

definition colony_ok :: "nat \<Rightarrow> nat \<Rightarrow> aco \<Rightarrow> bool" where
  "colony_ok n m A =
     (0 < n \<and> 0 < m \<and> instance_ok n m (aco_instance A) \<and> has_shape n n (aco_tau A) \<and>
      length (aco_best A) = n \<and> opt_ok (aco_optimizer A))"

definition ant_ok :: "nat \<Rightarrow> int list \<Rightarrow> bool" where
  "ant_ok n ant = (length ant = n \<and> list_all (\<lambda>s. - int n \<le> s \<and> s < int n) ant)"

text \<open>The number of objective tuples in the history of the colony's optimizer.\<close>

abbreviation history_length :: "aco \<Rightarrow> nat" where
  "history_length A \<equiv> length (opt_objective (aco_optimizer A))"

section \<open>Example inputs\<close>

text \<open>
  Three jobs on two machines with generous due dates (no tardiness in job order), three
  unit jobs on one machine of which the first is due at once, and colonies on them.
\<close>

definition tiny_instance :: Instance where
  "tiny_instance = \<lparr>inst_p = [[3, 2], [2, 4], [1, 3]], inst_c = [[0, 0], [0, 0], [0, 0]],
      inst_d = [5, 9, 12], inst_w = [1, 1, 1]\<rparr>"

definition unit_instance :: Instance where
  "unit_instance = \<lparr>inst_p = [[1], [1], [1]], inst_c = [[0], [0], [0]],
      inst_d = [0, 5, 5], inst_w = [1, 1, 1]\<rparr>"

definition started_optimizer :: optimizer where
  "started_optimizer =
     start (base_init \<infinity> (Some \<infinity>) (Some 30) None (optimizer.fields None None)) 0"

definition colony :: "policy \<Rightarrow> Instance \<Rightarrow> int list \<Rightarrow> int \<Rightarrow> aco" where
  "colony pol I best Z =
     \<lparr>aco_policy = pol, aco_optimizer = started_optimizer, aco_n_ants = 2, aco_rho = 1 / 2,
      aco_ls = LsNone, aco_tau = replicate (inst_n I) (replicate (inst_n I) (Fin 1)),
      aco_best = best, aco_Zbest = Z, aco_instance = I,
      aco_tau_min = Fin (1 / 5), aco_tau_max = Fin 1, aco_seed_ant = None\<rparr>"

section \<open>neighbourhood.py: local search\<close>

text \<open>
  The kernels take the buffer \<^verbatim>\<open>c\<close>, the processing times \<^verbatim>\<open>p\<close>, and the due dates \<^verbatim>\<open>d\<close> and
  weights \<^verbatim>\<open>w\<close> that the wrapper has reordered once by the incoming solution. Each candidate
  is scored by \<^verbatim>\<open>np.dot(w, np.maximum(c[:, -1] - d, 0))\<close> after the completion times of
  \<^verbatim>\<open>p[solution, :]\<close> have been written to \<^verbatim>\<open>c\<close>. The weights and the tardiness are converted to
  \<^verbatim>\<open>float32\<close> there; the model computes the dot product on integers, which is the same value
  as long as the partial sums stay below \<open>2^24\<close>. The solutions the kernels are called with
  are permutations of the jobs, so that every index is in range; an index out of range is
  the \<^verbatim>\<open>IndexError\<close> of \<open>fancy_index\<close>.
\<close>

definition dot_f32 :: "int64 list \<Rightarrow> int32 list \<Rightarrow> int" where
  "dot_f32 w t = sum_list (map2 (\<lambda>x y. sint x * sint y) w t)"

definition kernel_wt ::
  "matrix \<Rightarrow> matrix \<Rightarrow> int32 list \<Rightarrow> int64 list \<Rightarrow> int list \<Rightarrow> error + (int \<times> matrix)" where
  "kernel_wt c p d w solution =
     (case fancy_index p solution of
        None \<Rightarrow> Inl IndexError
      | Some ordered_p \<Rightarrow>
     (case computation_times c ordered_p of
        None \<Rightarrow> Inl ValueError
      | Some C \<Rightarrow>
     (case last_column C of
        None \<Rightarrow> Inl IndexError
      | Some col \<Rightarrow>
          if length col = length d \<and> length d = length w
          then Inr (dot_f32 w (map2 (\<lambda>x y. smax (x - y) 0) col d), C)
          else Inl ValueError)))"

text \<open>Exchanging the jobs at two positions.\<close>

definition swap_jobs :: "int list \<Rightarrow> nat \<Rightarrow> nat \<Rightarrow> int list" where
  "swap_jobs s i j = s[i := s ! j, j := s ! i]"

text \<open>
  \<^verbatim>\<open>__swap_search\<close>: the loop over \<open>i\<close> swaps positions \<open>i\<close> and \<open>i + 1\<close>, scores, and swaps
  back; \<open>best_idx\<close> is \<open>-1\<close> while nothing has improved.
\<close>

fun swap_loop ::
  "matrix \<Rightarrow> int32 list \<Rightarrow> int64 list \<Rightarrow> int list \<Rightarrow> nat list \<Rightarrow> matrix \<Rightarrow> int \<Rightarrow> int \<Rightarrow>
     error + (matrix \<times> int \<times> int)" where
  "swap_loop p d w solution [] c bestZ best_idx = Inr (c, bestZ, best_idx)"
| "swap_loop p d w solution (i # rest) c bestZ best_idx =
     (case kernel_wt c p d w (swap_jobs solution i (i + 1)) of
        Inl e \<Rightarrow> Inl e
      | Inr (currentZ, c1) \<Rightarrow>
          if currentZ < bestZ then swap_loop p d w solution rest c1 currentZ (int i)
          else swap_loop p d w solution rest c1 bestZ best_idx)"

definition swap_search_kernel ::
  "matrix \<Rightarrow> matrix \<Rightarrow> int32 list \<Rightarrow> int64 list \<Rightarrow> int list \<Rightarrow>
     error + (matrix \<times> int list \<times> bool)" where
  "swap_search_kernel c p d w solution =
     (case kernel_wt c p d w solution of
        Inl e \<Rightarrow> Inl e
      | Inr (bestZ, c1) \<Rightarrow>
          (case swap_loop p d w solution [0..<length solution - 1] c1 bestZ (- 1) of
             Inl e \<Rightarrow> Inl e
           | Inr (c2, _, i) \<Rightarrow>
               if i > - 1 then Inr (c2, swap_jobs solution (nat i) (nat i + 1), True)
               else Inr (c2, solution, False)))"

text \<open>
  The wrappers reorder \<^verbatim>\<open>d\<close> and \<^verbatim>\<open>w\<close> by the incoming solution and return the new solution
  and the improvement flag; the instance is returned with its buffer as the kernel leaves
  it. \<^verbatim>\<open>interchange_search\<close> calls \<^verbatim>\<open>__swap_search\<close>, as \<^verbatim>\<open>swap_search\<close> does.
\<close>

definition swap_search :: "Instance \<Rightarrow> int list \<Rightarrow> error + (int list \<times> bool \<times> Instance)" where
  "swap_search I solution =
     (case fancy_index (inst_d I) solution of
        None \<Rightarrow> Inl IndexError
      | Some d \<Rightarrow>
     (case fancy_index (inst_w I) solution of
        None \<Rightarrow> Inl IndexError
      | Some w \<Rightarrow>
     (case swap_search_kernel (inst_c I) (inst_p I) d w solution of
        Inl e \<Rightarrow> Inl e
      | Inr (c, new_solution, improvement) \<Rightarrow>
          Inr (new_solution, improvement, I\<lparr>inst_c := c\<rparr>))))"

definition interchange_search ::
  "Instance \<Rightarrow> int list \<Rightarrow> error + (int list \<times> bool \<times> Instance)" where
  "interchange_search I solution =
     (case fancy_index (inst_d I) solution of
        None \<Rightarrow> Inl IndexError
      | Some d \<Rightarrow>
     (case fancy_index (inst_w I) solution of
        None \<Rightarrow> Inl IndexError
      | Some w \<Rightarrow>
     (case swap_search_kernel (inst_c I) (inst_p I) d w solution of
        Inl e \<Rightarrow> Inl e
      | Inr (c, new_solution, improvement) \<Rightarrow>
          Inr (new_solution, improvement, I\<lparr>inst_c := c\<rparr>))))"

text \<open>
  \<^verbatim>\<open>__interchange_search\<close>, which no wrapper calls: \<open>i\<close> ranges over \<^verbatim>\<open>range(len(solution) - 1)\<close>
  and \<open>j\<close> over \<^verbatim>\<open>range(i)\<close>; the state carried through is the buffer, the best score and the
  best pair.
\<close>

fun interchange_inner ::
  "matrix \<Rightarrow> int32 list \<Rightarrow> int64 list \<Rightarrow> int list \<Rightarrow> nat \<Rightarrow> nat list \<Rightarrow>
     matrix \<times> int \<times> int \<times> int \<Rightarrow> error + (matrix \<times> int \<times> int \<times> int)" where
  "interchange_inner p d w solution i [] st = Inr st"
| "interchange_inner p d w solution i (j # rest) (c, bestZ, best_i, best_j) =
     (case kernel_wt c p d w (swap_jobs solution i j) of
        Inl e \<Rightarrow> Inl e
      | Inr (currentZ, c1) \<Rightarrow>
          if currentZ < bestZ
          then interchange_inner p d w solution i rest (c1, currentZ, int i, int j)
          else interchange_inner p d w solution i rest (c1, bestZ, best_i, best_j))"

fun interchange_outer ::
  "matrix \<Rightarrow> int32 list \<Rightarrow> int64 list \<Rightarrow> int list \<Rightarrow> nat list \<Rightarrow>
     matrix \<times> int \<times> int \<times> int \<Rightarrow> error + (matrix \<times> int \<times> int \<times> int)" where
  "interchange_outer p d w solution [] st = Inr st"
| "interchange_outer p d w solution (i # rest) st =
     (case interchange_inner p d w solution i [0..<i] st of
        Inl e \<Rightarrow> Inl e
      | Inr st1 \<Rightarrow> interchange_outer p d w solution rest st1)"

definition interchange_search_kernel ::
  "matrix \<Rightarrow> matrix \<Rightarrow> int32 list \<Rightarrow> int64 list \<Rightarrow> int list \<Rightarrow>
     error + (matrix \<times> int list \<times> bool)" where
  "interchange_search_kernel c p d w solution =
     (case kernel_wt c p d w solution of
        Inl e \<Rightarrow> Inl e
      | Inr (bestZ, c1) \<Rightarrow>
          (case interchange_outer p d w solution [0..<length solution - 1]
                  (c1, bestZ, - 1, - 1) of
             Inl e \<Rightarrow> Inl e
           | Inr (c2, _, i, j) \<Rightarrow>
               if i > - 1 then Inr (c2, swap_jobs solution (nat i) (nat j), True)
               else Inr (c2, solution, False)))"

text \<open>
  The insertion move \<^verbatim>\<open>solution[j+1:i+1], solution[j] = solution[j:i], solution[i]\<close> for
  \<open>j < i\<close>: the job at position \<open>i\<close> goes to position \<open>j\<close> and the jobs between shift right.
\<close>

definition insert_move :: "int list \<Rightarrow> nat \<Rightarrow> nat \<Rightarrow> int list" where
  "insert_move s i j = take j s @ [s ! i] @ take (i - j) (drop j s) @ drop (i + 1) s"

text \<open>
  \<^verbatim>\<open>__insertion_search\<close>: \<open>i\<close> ranges over \<^verbatim>\<open>range(len(solution))\<close> and \<open>j\<close> over \<^verbatim>\<open>range(i)\<close>. The
  statement after the scoring, \<^verbatim>\<open>solution[i:j], solution[j], solution[i+1:j+1], solution[i]\<close>,
  is an expression without effect, so the array \<^verbatim>\<open>solution\<close> keeps every move; it is part of
  the loop state and is returned as the kernel leaves it.
\<close>

fun insertion_inner ::
  "matrix \<Rightarrow> int32 list \<Rightarrow> int64 list \<Rightarrow> nat \<Rightarrow> nat list \<Rightarrow>
     matrix \<times> int list \<times> int \<times> int \<times> int \<Rightarrow>
     error + (matrix \<times> int list \<times> int \<times> int \<times> int)" where
  "insertion_inner p d w i [] st = Inr st"
| "insertion_inner p d w i (j # rest) (c, solution, bestZ, best_i, best_j) =
     (let solution1 = insert_move solution i j in
      case kernel_wt c p d w solution1 of
        Inl e \<Rightarrow> Inl e
      | Inr (currentZ, c1) \<Rightarrow>
          if currentZ < bestZ
          then insertion_inner p d w i rest (c1, solution1, currentZ, int i, int j)
          else insertion_inner p d w i rest (c1, solution1, bestZ, best_i, best_j))"

fun insertion_outer ::
  "matrix \<Rightarrow> int32 list \<Rightarrow> int64 list \<Rightarrow> nat list \<Rightarrow>
     matrix \<times> int list \<times> int \<times> int \<times> int \<Rightarrow>
     error + (matrix \<times> int list \<times> int \<times> int \<times> int)" where
  "insertion_outer p d w [] st = Inr st"
| "insertion_outer p d w (i # rest) st =
     (case insertion_inner p d w i [0..<i] st of
        Inl e \<Rightarrow> Inl e
      | Inr st1 \<Rightarrow> insertion_outer p d w rest st1)"

text \<open>The kernel returns the buffer, the array \<^verbatim>\<open>solution\<close>, \<^verbatim>\<open>new_sol\<close> and the flag.\<close>

definition insertion_search_kernel ::
  "matrix \<Rightarrow> matrix \<Rightarrow> int32 list \<Rightarrow> int64 list \<Rightarrow> int list \<Rightarrow>
     error + (matrix \<times> int list \<times> int list \<times> bool)" where
  "insertion_search_kernel c p d w solution =
     (case kernel_wt c p d w solution of
        Inl e \<Rightarrow> Inl e
      | Inr (bestZ, c1) \<Rightarrow>
          (case insertion_outer p d w [0..<length solution] (c1, solution, bestZ, - 1, - 1) of
             Inl e \<Rightarrow> Inl e
           | Inr (c2, solution2, _, best_i, best_j) \<Rightarrow>
               if best_i > - 1
               then Inr (c2, solution2, insert_move solution (nat best_i) (nat best_j), True)
               else Inr (c2, solution2, solution, False)))"

text \<open>
  \<^verbatim>\<open>insertion_search\<close> returns the new solution and the flag; the model also returns the
  instance and the caller's array \<^verbatim>\<open>solution\<close> as the kernel leaves them.
\<close>

definition insertion_search ::
  "Instance \<Rightarrow> int list \<Rightarrow> error + (int list \<times> bool \<times> Instance \<times> int list)" where
  "insertion_search I solution =
     (case fancy_index (inst_d I) solution of
        None \<Rightarrow> Inl IndexError
      | Some d \<Rightarrow>
     (case fancy_index (inst_w I) solution of
        None \<Rightarrow> Inl IndexError
      | Some w \<Rightarrow>
     (case insertion_search_kernel (inst_c I) (inst_p I) d w solution of
        Inl e \<Rightarrow> Inl e
      | Inr (c, solution2, new_solution, improvement) \<Rightarrow>
          Inr (new_solution, improvement, I\<lparr>inst_c := c\<rparr>, solution2))))"

section \<open>heuristics.py: the NEH seed\<close>

text \<open>
  The weighted tardiness of a partial sequence, computed in the first \<^verbatim>\<open>len(partial_indices)\<close>
  rows of the buffer (\<^verbatim>\<open>c[:len(partial_indices), :]\<close> is a view of \<^verbatim>\<open>instance.c\<close>).
\<close>

definition neh_partial_wt :: "Instance \<Rightarrow> int list \<Rightarrow> error + (int64 \<times> Instance)" where
  "neh_partial_wt I partial_indices =
     (case fancy_index (inst_p I) partial_indices of
        None \<Rightarrow> Inl IndexError
      | Some ordered_p \<Rightarrow>
     (case fancy_index (inst_w I) partial_indices of
        None \<Rightarrow> Inl IndexError
      | Some ordered_w \<Rightarrow>
     (case fancy_index (inst_d I) partial_indices of
        None \<Rightarrow> Inl IndexError
      | Some ordered_d \<Rightarrow>
     (case computation_times (take (length partial_indices) (inst_c I)) ordered_p of
        None \<Rightarrow> Inl ValueError
      | Some C \<Rightarrow>
     (case last_column C of
        None \<Rightarrow> Inl IndexError
      | Some col \<Rightarrow>
          Inr (np_dot ordered_w (map2 (\<lambda>x y. smax (x - y) 0) col ordered_d),
               I\<lparr>inst_c := C @ drop (length partial_indices) (inst_c I)\<rparr>))))))"

text \<open>
  The loop over the positions \<open>h\<close> for the next job \<open>x\<close>, with \<^verbatim>\<open>best_wt\<close> (\<open>None\<close> is \<^verbatim>\<open>np.inf\<close>)
  and \<^verbatim>\<open>best_idx\<close>; then the loop over the remaining jobs.
\<close>

fun neh_positions ::
  "Instance \<Rightarrow> int list \<Rightarrow> int \<Rightarrow> nat list \<Rightarrow> int option \<Rightarrow> nat \<Rightarrow> error + (nat \<times> Instance)"
where
  "neh_positions I solution x [] best_wt best_idx = Inr (best_idx, I)"
| "neh_positions I solution x (h # hs) best_wt best_idx =
     (case neh_partial_wt I (take h solution @ [x] @ drop h solution) of
        Inl e \<Rightarrow> Inl e
      | Inr (wt, I1) \<Rightarrow>
          if less_Zbest (sint wt) best_wt
          then neh_positions I1 solution x hs (Some (sint wt)) h
          else neh_positions I1 solution x hs best_wt best_idx)"

fun neh_insert_all :: "Instance \<Rightarrow> int list \<Rightarrow> int list \<Rightarrow> error + (int list \<times> Instance)" where
  "neh_insert_all I solution [] = Inr (solution, I)"
| "neh_insert_all I solution (x # xs) =
     (case neh_positions I solution x [0..<length solution + 1] None 0 of
        Inl e \<Rightarrow> Inl e
      | Inr (best_idx, I1) \<Rightarrow>
          neh_insert_all I1 (take best_idx solution @ [x] @ drop best_idx solution) xs)"

text \<open>\<^verbatim>\<open>neh_algorithm\<close>: the jobs by ascending due date, inserted one after the other.\<close>

definition neh_algorithm :: "Instance \<Rightarrow> error + (int list \<times> Instance)" where
  "neh_algorithm I =
     (case np_argsort (map sint (inst_d I)) of
        [] \<Rightarrow> Inl IndexError
      | x # xs \<Rightarrow> neh_insert_all I [x] xs)"

section \<open>aco/base.py: local search; aco/mmas.py, aco/paco.py: construction\<close>

text \<open>\<^verbatim>\<open>ACO.local_search\<close>: up to three rounds, stopping at a round without improvement.\<close>

fun local_search_rounds ::
  "nat \<Rightarrow> local_search_kind \<Rightarrow> Instance \<Rightarrow> int list \<Rightarrow> error + (int list \<times> Instance)" where
  "local_search_rounds 0 ls I solution = Inr (solution, I)"
| "local_search_rounds (Suc k) LsNone I solution = Inr (solution, I)"
| "local_search_rounds (Suc k) LsSwap I solution =
     (case swap_search I solution of
        Inl e \<Rightarrow> Inl e
      | Inr (solution1, improvement, I1) \<Rightarrow>
          if \<not> improvement then Inr (solution1, I1)
          else local_search_rounds k LsSwap I1 solution1)"
| "local_search_rounds (Suc k) LsInterchange I solution =
     (case interchange_search I solution of
        Inl e \<Rightarrow> Inl e
      | Inr (solution1, improvement, I1) \<Rightarrow>
          if \<not> improvement then Inr (solution1, I1)
          else local_search_rounds k LsInterchange I1 solution1)"
| "local_search_rounds (Suc k) LsInsertion I solution =
     (case insertion_search I solution of
        Inl e \<Rightarrow> Inl e
      | Inr (solution1, improvement, I1, _) \<Rightarrow>
          if \<not> improvement then Inr (solution1, I1)
          else local_search_rounds k LsInsertion I1 solution1)"

definition local_search ::
  "local_search_kind \<Rightarrow> Instance \<Rightarrow> int list \<Rightarrow> error + (int list \<times> Instance)" where
  "local_search ls I ant = local_search_rounds 3 ls I ant"

text \<open>
  The construction kernels are compiled by Numba in \<^verbatim>\<open>nopython\<close> mode, which does not check
  array bounds: a read past the end of an array yields whatever the memory holds there, the
  argument \<open>mem\<close> of the model. The index \<^verbatim>\<open>candidate_id\<close> chosen at position \<open>k\<close> (the first
  candidate, the argmax of the trail values, or the index sampled from them, depending on the
  random draw) is \<open>choice k\<close>.
\<close>

definition read_unchecked :: "(nat \<Rightarrow> int) \<Rightarrow> int list \<Rightarrow> nat \<Rightarrow> int" where
  "read_unchecked mem a i = (if i < length a then a ! i else mem i)"

text \<open>\<^verbatim>\<open>candidates[np.arange(candidates.shape[0]) != candidate_id]\<close>.\<close>

definition remove_at :: "int list \<Rightarrow> nat \<Rightarrow> int list" where
  "remove_at a i = take i a @ drop (Suc i) a"

text \<open>
  \<^verbatim>\<open>candidates[candidate_id:-1] = candidates[candidate_id+1:]\<close> followed by
  \<^verbatim>\<open>candidates[-1] = x\<close>.
\<close>

definition shift_in :: "int list \<Rightarrow> nat \<Rightarrow> int \<Rightarrow> int list" where
  "shift_in a i x = (if i < length a then take i a @ drop (Suc i) a @ [x] else butlast a @ [x])"

text \<open>
  \<^verbatim>\<open>MMAS._create_solution\<close>: the loop over the positions \<open>k\<close>, returning the values written to
  \<^verbatim>\<open>solution\<close>; and \<^verbatim>\<open>MMAS.create_solution\<close> with its check of the result.
\<close>

fun mmas_place :: "(nat \<Rightarrow> int) \<Rightarrow> (nat \<Rightarrow> nat) \<Rightarrow> int list \<Rightarrow> nat list \<Rightarrow> int list" where
  "mmas_place mem choice candidates [] = []"
| "mmas_place mem choice candidates (k # ks) =
     read_unchecked mem candidates (choice k) #
       mmas_place mem choice (remove_at candidates (choice k)) ks"

definition mmas_create_solution ::
  "nat \<Rightarrow> int list \<Rightarrow> (nat \<Rightarrow> int) \<Rightarrow> (nat \<Rightarrow> nat) \<Rightarrow> int list" where
  "mmas_create_solution n best mem choice =
     (let candidates = map (read_unchecked mem best) [0..<n];
          solution = mmas_place mem choice candidates [0..<n]
      in if n = length (remdups solution) \<and> list_all (\<lambda>x. x < int n) solution \<and>
            list_all (\<lambda>x. 0 \<le> x) solution
         then solution else best)"

text \<open>
  \<^verbatim>\<open>PACO._create_solution\<close> with its window of five candidates and \<^verbatim>\<open>next_id\<close>, and
  \<^verbatim>\<open>PACO.create_solution\<close>, which returns what the kernel wrote.
\<close>

fun paco_place ::
  "(nat \<Rightarrow> int) \<Rightarrow> (nat \<Rightarrow> nat) \<Rightarrow> nat \<Rightarrow> int list \<Rightarrow> nat \<Rightarrow> int list \<Rightarrow> nat list \<Rightarrow> int list"
where
  "paco_place mem choice n best next_id candidates [] = []"
| "paco_place mem choice n best next_id candidates (k # ks) =
     read_unchecked mem candidates (choice k) #
       (if next_id < n
        then paco_place mem choice n best (Suc next_id)
               (shift_in candidates (choice k) (read_unchecked mem best next_id)) ks
        else paco_place mem choice n best next_id (remove_at candidates (choice k)) ks)"

definition paco_create_solution ::
  "nat \<Rightarrow> int list \<Rightarrow> (nat \<Rightarrow> int) \<Rightarrow> (nat \<Rightarrow> nat) \<Rightarrow> int list" where
  "paco_create_solution n best mem choice =
     paco_place mem choice n best 5 (map (read_unchecked mem best) [0..<5]) [0..<n]"

text \<open>Three unit-weight jobs on one machine, all due at time \<open>0\<close>.\<close>

definition due_now_instance :: "int32 list \<Rightarrow> Instance" where
  "due_now_instance ts =
     \<lparr>inst_p = map (\<lambda>t. [t]) ts, inst_c = map (\<lambda>t. [0]) ts,
      inst_d = map (\<lambda>t. 0) ts, inst_w = map (\<lambda>t. 1) ts\<rparr>"





section \<open>The completion-time kernel computes the recurrence\<close>

lemma has_shapeD:
  "has_shape n m a \<Longrightarrow> length a = n"
  "has_shape n m a \<Longrightarrow> i < n \<Longrightarrow> length (a ! i) = m"
  by (auto simp: has_shape_def list_all_length)

lemma has_shapeI:
  "length a = n \<Longrightarrow> (\<And>i. i < n \<Longrightarrow> length (a ! i) = m) \<Longrightarrow> has_shape n m a"
  by (auto simp: has_shape_def list_all_length)

lemma length_cumsum_from [simp]: "length (cumsum_from a xs) = length xs"
  by (induction xs arbitrary: a) auto

lemma cumsum_from_nth:
  "i < length xs \<Longrightarrow> cumsum_from a xs ! i = a + sum_list (take (Suc i) xs)"
proof (induction xs arbitrary: a i)
  case Nil then show ?case by simp
next
  case (Cons x xs)
  then show ?case by (cases i) (auto simp: add.assoc)
qed

lemma length_cumsum [simp]: "length (cumsum xs) = length xs"
  by (simp add: cumsum_def)

lemma cumsum_0: "0 < length xs \<Longrightarrow> cumsum xs ! 0 = xs ! 0"
  by (cases xs) (auto simp: cumsum_def)

lemma cumsum_Suc:
  "Suc i < length xs \<Longrightarrow> cumsum xs ! Suc i = cumsum xs ! i + xs ! Suc i"
  by (simp add: cumsum_def cumsum_from_nth take_Suc_conv_app_nth [of "Suc i"])

lemma cumsum_column_rec:
  assumes "has_shape n m p" "0 < m" "i < n"
  shows "cumsum (column p 0) ! i = completion_rec p i 0"
  using assms(3)
proof (induction i)
  case 0
  with assms show ?case by (simp add: cumsum_0 column_def has_shapeD)
next
  case (Suc i)
  with assms show ?case by (simp add: cumsum_Suc column_def has_shapeD)
qed

lemma cumsum_row_rec:
  assumes "has_shape n m p" "0 < n" "j < m"
  shows "cumsum (p ! 0) ! j = completion_rec p 0 j"
  using assms(3)
proof (induction j)
  case 0
  with assms show ?case by (simp add: cumsum_0 has_shapeD)
next
  case (Suc j)
  with assms show ?case by (simp add: cumsum_Suc has_shapeD)
qed

lemma set_col0_shape:
  "has_shape n m c \<Longrightarrow> length xs = n \<Longrightarrow> has_shape n m (set_col0 c xs)"
  by (auto simp: has_shape_def set_col0_def list_all_length)

lemma set_col0_nth:
  "has_shape n m c \<Longrightarrow> length xs = n \<Longrightarrow> i < n \<Longrightarrow> 0 < m \<Longrightarrow> set_col0 c xs ! i ! 0 = xs ! i"
  by (auto simp: has_shape_def set_col0_def list_all_length)

lemma set_row0_shape:
  "has_shape n m c \<Longrightarrow> length xs = m \<Longrightarrow> has_shape n m (set_row0 c xs)"
  by (auto simp: has_shape_def set_row0_def list_all_length nth_list_update)

lemma set_cell_shape:
  "has_shape n m c \<Longrightarrow> has_shape n m (set_cell c i j v)"
  by (cases "i < length c") (auto simp: has_shape_def set_cell_def list_all_length nth_list_update)

lemma set_cell_nth:
  "has_shape n m c \<Longrightarrow> i < n \<Longrightarrow> j < m \<Longrightarrow> i' < n \<Longrightarrow>
   set_cell c i j v ! i' ! j' = (if i' = i \<and> j' = j then v else c ! i' ! j')"
  by (auto simp: has_shape_def set_cell_def list_all_length nth_list_update)

text \<open>The inner loop fills row \<open>i\<close> up to column \<open>l\<close> and touches nothing else.\<close>

lemma row_loop_invariant:
  assumes shp: "has_shape n m c" and i: "0 < i" "i < n" and l: "0 < l" "l \<le> m"
    and prev: "\<And>j. j < m \<Longrightarrow> c ! (i - 1) ! j = completion_rec p (i - 1) j"
    and first: "c ! i ! 0 = completion_rec p i 0"
  shows "has_shape n m (fold (cell_step p i) [1..<l] c) \<and>
         (\<forall>j<l. fold (cell_step p i) [1..<l] c ! i ! j = completion_rec p i j) \<and>
         (\<forall>i' j. i' < n \<and> i' \<noteq> i \<longrightarrow> fold (cell_step p i) [1..<l] c ! i' ! j = c ! i' ! j)"
  using l
proof (induction l)
  case 0
  then show ?case by simp
next
  case (Suc l)
  show ?case
  proof (cases "l = 0")
    case True
    with shp first show ?thesis by simp
  next
    case False
    then have l0: "0 < l" by simp
    from Suc.prems have lm: "l < m" by simp
    define c' where "c' = fold (cell_step p i) [1..<l] c"
    from Suc.IH l0 lm have IH: "has_shape n m c'"
      "\<And>j. j < l \<Longrightarrow> c' ! i ! j = completion_rec p i j"
      "\<And>i' j. i' < n \<Longrightarrow> i' \<noteq> i \<Longrightarrow> c' ! i' ! j = c ! i' ! j"
      by (auto simp: c'_def)
    have upt: "[1..<Suc l] = [1..<l] @ [l]" using l0 by simp
    obtain i0 where i0: "i = Suc i0" using i(1) by (cases i) auto
    obtain l0' where l0': "l = Suc l0'" using l0 by (cases l) auto
    have above: "c' ! (i - 1) ! l = completion_rec p (i - 1) l"
      using IH(3) [of "i - 1" l] i prev [OF lm] by simp
    have left: "c' ! i ! (l - 1) = completion_rec p i (l - 1)"
      using IH(2) [of "l - 1"] l0 by simp
    have val: "smax (c' ! (i - 1) ! l) (c' ! i ! (l - 1)) + p ! i ! l = completion_rec p i l"
      unfolding above left by (simp add: i0 l0')
    have step: "fold (cell_step p i) [1..<Suc l] c = set_cell c' i l (completion_rec p i l)"
      using val l0 by (simp add: upt c'_def cell_step_def)
    show ?thesis
      unfolding step
      using IH i lm by (auto simp: set_cell_shape set_cell_nth less_Suc_eq)
  qed
qed


lemma row_loop_rows:
  assumes shp: "has_shape n m c" and i: "0 < i" "i < n" and m: "0 < m"
    and prev: "\<And>j. j < m \<Longrightarrow> c ! (i - 1) ! j = completion_rec p (i - 1) j"
    and first: "c ! i ! 0 = completion_rec p i 0"
  shows "has_shape n m (row_loop p m i c)"
    and "\<And>j. j < m \<Longrightarrow> row_loop p m i c ! i ! j = completion_rec p i j"
    and "\<And>i' j. i' < n \<Longrightarrow> i' \<noteq> i \<Longrightarrow> row_loop p m i c ! i' ! j = c ! i' ! j"
  using row_loop_invariant [OF shp i m order_refl prev first]
  by (auto simp: row_loop_def)

text \<open>The outer loop: after rows \<open>1..<k\<close>, rows below \<open>k\<close> hold the recurrence.\<close>

lemma outer_loop_invariant:
  assumes shp: "has_shape n m c" and m: "0 < m" and k: "0 < k" "k \<le> n"
    and col: "\<And>i. i < n \<Longrightarrow> c ! i ! 0 = completion_rec p i 0"
    and row: "\<And>j. j < m \<Longrightarrow> c ! 0 ! j = completion_rec p 0 j"
  shows "has_shape n m (fold (row_loop p m) [1..<k] c) \<and>
         (\<forall>i<n. fold (row_loop p m) [1..<k] c ! i ! 0 = completion_rec p i 0) \<and>
         (\<forall>i<k. \<forall>j<m. fold (row_loop p m) [1..<k] c ! i ! j = completion_rec p i j)"
  using k
proof (induction k)
  case 0
  then show ?case by simp
next
  case (Suc k)
  show ?case
  proof (cases "k = 0")
    case True
    with shp col row show ?thesis by simp
  next
    case False
    then have k0: "0 < k" by simp
    from Suc.prems have kn: "k < n" by simp
    define c' where "c' = fold (row_loop p m) [1..<k] c"
    from Suc.IH k0 kn have IH: "has_shape n m c'"
      "\<And>i. i < n \<Longrightarrow> c' ! i ! 0 = completion_rec p i 0"
      "\<And>i j. i < k \<Longrightarrow> j < m \<Longrightarrow> c' ! i ! j = completion_rec p i j"
      by (auto simp: c'_def)
    have step: "fold (row_loop p m) [1..<Suc k] c = row_loop p m k c'"
      using k0 by (simp add: c'_def)
    have prev: "\<And>j. j < m \<Longrightarrow> c' ! (k - 1) ! j = completion_rec p (k - 1) j"
      using IH(3) k0 by simp
    have first: "c' ! k ! 0 = completion_rec p k 0" by (rule IH(2) [OF kn])
    have R1: "has_shape n m (row_loop p m k c')"
      by (rule row_loop_rows(1) [OF IH(1) k0 kn m prev first])
    have R2: "row_loop p m k c' ! k ! j = completion_rec p k j" if "j < m" for j
      by (rule row_loop_rows(2) [OF IH(1) k0 kn m prev first that])
    have R3: "row_loop p m k c' ! i' ! j = c' ! i' ! j" if "i' < n" "i' \<noteq> k" for i' j
      by (rule row_loop_rows(3) [OF IH(1) k0 kn m prev first that])
    have A: "row_loop p m k c' ! i ! 0 = completion_rec p i 0" if "i < n" for i
      using R2 [OF m] R3 [OF that] IH(2) [OF that] by (cases "i = k") auto
    have B: "row_loop p m k c' ! i ! j = completion_rec p i j" if "i < Suc k" "j < m" for i j
    proof (cases "i = k")
      case True
      then show ?thesis using R2 [OF that(2)] by simp
    next
      case False
      with that kn have "i < k" "i < n" by auto
      then show ?thesis using R3 [of i j] False IH(3) [OF \<open>i < k\<close> that(2)] by simp
    qed
    show ?thesis
      unfolding step using R1 A B by blast
  qed
qed

lemma computation_times_rec:
  assumes p: "has_shape n m p" and c: "has_shape n m c" and n: "0 < n" and m: "0 < m"
  obtains C where "computation_times c p = Some C" "has_shape n m C"
    "\<And>i j. i < n \<Longrightarrow> j < m \<Longrightarrow> C ! i ! j = completion_rec p i j"
proof -
  have nr: "nrows p = n" using p by (simp add: nrows_def has_shapeD)
  have nc: "ncols p = m" using p n
    by (cases p) (auto simp: ncols_def has_shape_def)
  define c1 where "c1 = set_col0 c (cumsum (column p 0))"
  define c2 where "c2 = set_row0 c1 (cumsum (p ! 0))"
  have lc: "length (cumsum (column p 0)) = n" using p by (simp add: column_def has_shapeD)
  have lr: "length (cumsum (p ! 0)) = m" using p n by (simp add: has_shapeD)
  have s1: "has_shape n m c1" unfolding c1_def by (rule set_col0_shape [OF c lc])
  have s2: "has_shape n m c2" unfolding c2_def by (rule set_row0_shape [OF s1 lr])
  have c1col: "c1 ! i ! 0 = completion_rec p i 0" if "i < n" for i
    using that set_col0_nth [OF c lc that m] cumsum_column_rec [OF p m that]
    by (simp add: c1_def)
  have row: "c2 ! 0 ! j = completion_rec p 0 j" if "j < m" for j
    using that s1 n cumsum_row_rec [OF p n that]
    by (simp add: c2_def set_row0_def has_shapeD)
  have col: "c2 ! i ! 0 = completion_rec p i 0" if "i < n" for i
  proof (cases i)
    case 0
    then show ?thesis using row [OF m] by simp
  next
    case (Suc i')
    then show ?thesis using c1col [OF that] by (simp add: c2_def set_row0_def)
  qed
  have ct: "computation_times c p = Some (fold (row_loop p m) [1..<n] c2)"
    using p c n m by (simp add: computation_times_def nr nc c1_def c2_def Let_def)
  from outer_loop_invariant [OF s2 m n order_refl col row] ct that
  show thesis by blast
qed


lemma sint_smax: "sint (smax a b) = max (sint a) (sint b)"
  by (simp add: smax_def word_sless_alt max_def)

lemma sint_add_fits:
  fixes a b :: int32
  assumes "fits_int32 (sint a + sint b)"
  shows "sint (a + b) = sint a + sint b"
proof -
  have "signed_take_bit 31 (sint a + sint b) = sint a + sint b"
    using assms by (intro signed_take_bit_int_eq_self) (auto simp: fits_int32_def)
  then show ?thesis by (simp add: sint_word_add)
qed

text \<open>Where no completion time leaves the range, the 32-bit values are the integer ones.\<close>

lemma completion_rec_int:
  assumes "\<forall>i<n. \<forall>j<m. fits_int32 (completion_int p i j)"
    and "i < n" and "j < m"
  shows "sint (completion_rec p i j) = completion_int p i j"
  using assms
proof (induction p i j rule: completion_rec.induct)
  case (1 p)
  then show ?case by simp
next
  case (2 p i)
  from "2.prems" have lt: "i < n" by simp
  have IH: "sint (completion_rec p i 0) = completion_int p i 0"
    using "2.IH" "2.prems"(1) lt "2.prems"(3) by blast
  have "fits_int32 (completion_int p (Suc i) 0)"
    using "2.prems" by blast
  then have "fits_int32 (sint (completion_rec p i 0) + sint (p ! Suc i ! 0))"
    by (simp add: IH)
  from sint_add_fits [OF this] show ?case by (simp add: IH)
next
  case (3 p j)
  from "3.prems" have lt: "j < m" by simp
  have IH: "sint (completion_rec p 0 j) = completion_int p 0 j"
    using "3.IH" "3.prems"(1,2) lt by blast
  have "fits_int32 (completion_int p 0 (Suc j))"
    using "3.prems" by blast
  then have "fits_int32 (sint (completion_rec p 0 j) + sint (p ! 0 ! Suc j))"
    by (simp add: IH)
  from sint_add_fits [OF this] show ?case by (simp add: IH)
next
  case (4 p i j)
  from "4.prems" have lt: "i < n" "j < m" by simp_all
  have IH1: "sint (completion_rec p i (Suc j)) = completion_int p i (Suc j)"
    using "4.IH"(1) "4.prems"(1,3) lt(1) by blast
  have IH2: "sint (completion_rec p (Suc i) j) = completion_int p (Suc i) j"
    using "4.IH"(2) "4.prems"(1,2) lt(2) by blast
  have "fits_int32 (completion_int p (Suc i) (Suc j))"
    using "4.prems" by blast
  then have "fits_int32 (sint (smax (completion_rec p i (Suc j)) (completion_rec p (Suc i) j)) +
      sint (p ! Suc i ! Suc j))"
    by (simp add: IH1 IH2 sint_smax)
  from sint_add_fits [OF this] show ?case by (simp add: IH1 IH2 sint_smax)
qed

text \<open>
  Claim C1, as amended. For an \<open>n \<times> m\<close> matrix \<open>p\<close> (\<open>n, m \<ge> 1\<close>) of processing times, already
  reordered, whose completion times all fit a 32-bit signed integer, and a buffer \<open>c\<close> of the
  same shape, \<open>computation_times c p\<close> returns and fills the buffer with \<open>C\<close> such that, as
  integers, \<open>C[0,0] = p[0,0]\<close>, \<open>C[i,0] = C[i-1,0] + p[i,0]\<close> for \<open>i \<ge> 1\<close>,
  \<open>C[0,j] = C[0,j-1] + p[0,j]\<close> for \<open>j \<ge> 1\<close>, and \<open>C[i,j] = max(C[i-1,j], C[i,j-1]) + p[i,j]\<close>
  for every other cell.
\<close>

theorem computation_times_integer_recurrence:
  assumes "has_shape n m p" and "has_shape n m c" and "0 < n" and "0 < m"
    and "\<And>i j. i < n \<Longrightarrow> j < m \<Longrightarrow> fits_int32 (completion_int p i j)"
  shows "\<exists>C. computation_times c p = Some C \<and> has_shape n m C \<and>
           sint (C ! 0 ! 0) = sint (p ! 0 ! 0) \<and>
           (\<forall>i. 1 \<le> i \<and> i < n \<longrightarrow>
              sint (C ! i ! 0) = sint (C ! (i - 1) ! 0) + sint (p ! i ! 0)) \<and>
           (\<forall>j. 1 \<le> j \<and> j < m \<longrightarrow>
              sint (C ! 0 ! j) = sint (C ! 0 ! (j - 1)) + sint (p ! 0 ! j)) \<and>
           (\<forall>i j. 1 \<le> i \<and> i < n \<and> 1 \<le> j \<and> j < m \<longrightarrow>
              sint (C ! i ! j) =
                max (sint (C ! (i - 1) ! j)) (sint (C ! i ! (j - 1))) + sint (p ! i ! j))"
proof -
  from computation_times_rec [OF assms(1-4)] obtain C where
    C: "computation_times c p = Some C" "has_shape n m C"
    and rec: "\<And>i j. i < n \<Longrightarrow> j < m \<Longrightarrow> C ! i ! j = completion_rec p i j"
    by blast
  have val: "sint (C ! i ! j) = completion_int p i j" if "i < n" "j < m" for i j
    using rec [OF that] completion_rec_int [of n m p i j] assms(5) that by simp
  have c00: "sint (C ! 0 ! 0) = sint (p ! 0 ! 0)"
    using val [OF assms(3,4)] by simp
  have col: "sint (C ! i ! 0) = sint (C ! (i - 1) ! 0) + sint (p ! i ! 0)"
    if "1 \<le> i" "i < n" for i
  proof -
    from that obtain i' where i': "i = Suc i'" by (cases i) auto
    with that have "i' < n" by simp
    then show ?thesis using val [OF that(2) assms(4)] val [OF \<open>i' < n\<close> assms(4)]
      by (simp add: i')
  qed
  have row: "sint (C ! 0 ! j) = sint (C ! 0 ! (j - 1)) + sint (p ! 0 ! j)"
    if "1 \<le> j" "j < m" for j
  proof -
    from that obtain j' where j': "j = Suc j'" by (cases j) auto
    with that have "j' < m" by simp
    then show ?thesis using val [OF assms(3) that(2)] val [OF assms(3) \<open>j' < m\<close>]
      by (simp add: j')
  qed
  have cell: "sint (C ! i ! j) =
      max (sint (C ! (i - 1) ! j)) (sint (C ! i ! (j - 1))) + sint (p ! i ! j)"
    if "1 \<le> i" "i < n" "1 \<le> j" "j < m" for i j
  proof -
    from that obtain i' j' where ij: "i = Suc i'" "j = Suc j'"
      by (cases i; cases j) auto
    with that have lt: "i' < n" "j' < m" by simp_all
    show ?thesis
      using val [OF that(2) that(4)] val [OF lt(1) that(4)] val [OF that(2) lt(2)]
      by (simp add: ij)
  qed
  from C c00 col row cell show ?thesis by blast
qed

theorem computation_times_integer_recurrence_witness:
  "has_shape 3 2 [[1, 4], [5, 3], [1, 2 :: int32]] \<and>
   has_shape 3 2 [[0, 0], [0, 0], [0, 0 :: int32]] \<and>
   fits_int32 (completion_int [[1, 4], [5, 3], [1, 2]] 1 1) \<and>
   fits_int32 (completion_int [[1, 4], [5, 3], [1, 2]] 2 1) \<and>
   computation_times [[0, 0], [0, 0], [0, 0]] [[1, 4], [5, 3], [1, 2]] =
     Some [[1, 5], [6, 9], [7, 11]] \<and>
   (\<exists>C. computation_times [[0, 0], [0, 0], [0, 0]] [[1, 4], [5, 3], [1, 2]] = Some C \<and>
        sint (C ! 1 ! 1) = max (sint (C ! 0 ! 1)) (sint (C ! 1 ! 0)) + 3 \<and>
        sint (C ! 2 ! 1) = max (sint (C ! 1 ! 1)) (sint (C ! 2 ! 0)) + 2)"
proof -
  let ?p = "[[1, 4], [5, 3], [1, 2 :: int32]]"
  have p: "has_shape 3 2 ?p"
    by (simp add: has_shape_def)
  have c: "has_shape 3 2 [[0, 0], [0, 0], [0, 0 :: int32]]"
    by (simp add: has_shape_def)
  have fits: "fits_int32 (completion_int ?p i j)" if "i < 3" "j < 2" for i j
  proof -
    from that have "i = 0 \<or> i = 1 \<or> i = 2" "j = 0 \<or> j = 1" by auto
    then show ?thesis
      by (auto simp: fits_int32_def numeral_2_eq_2)
  qed
  have val: "computation_times [[0, 0], [0, 0], [0, 0]] ?p = Some [[1, 5], [6, 9], [7, 11]]"
    by (simp add: computation_times_def nrows_def ncols_def has_shape_def set_col0_def
        set_row0_def set_cell_def cell_step_def column_def cumsum_def row_loop_def smax_def
        word_sless_alt upt_rec Let_def)
  from computation_times_integer_recurrence [OF p c _ _ fits] obtain C where
    C: "computation_times [[0, 0], [0, 0], [0, 0]] ?p = Some C"
    and cell: "\<forall>i j. 1 \<le> i \<and> i < 3 \<and> 1 \<le> j \<and> j < 2 \<longrightarrow>
          sint (C ! i ! j) =
            max (sint (C ! (i - 1) ! j)) (sint (C ! i ! (j - 1))) + sint (?p ! i ! j)"
    by auto
  from cell [rule_format, of 1 1]
  have c11: "sint (C ! 1 ! 1) = max (sint (C ! 0 ! 1)) (sint (C ! 1 ! 0)) + 3" by simp
  from cell [rule_format, of 2 1]
  have c21: "sint (C ! 2 ! 1) = max (sint (C ! 1 ! 1)) (sint (C ! 2 ! 0)) + 2" by simp
  from p c C c11 c21 val fits [of 1 1] fits [of 2 1] show ?thesis by auto
qed

text \<open>
  The claim as stated, for every matrix, fails where a sum leaves the range: with the
  processing times \<open>2^31 - 1\<close> and \<open>1\<close> on one machine the buffer holds \<open>C[1,0] = -2^31\<close>, which
  is not \<open>C[0,0] + p[1,0] = 2^31\<close>.
\<close>

theorem computation_times_overflow_counterexample:
  "has_shape 2 1 [[2147483647], [1 :: int32]] \<and>
   computation_times [[0], [0]] [[2147483647], [1]] = Some [[2147483647], [2147483648]] \<and>
   sint ([[2147483647], [2147483648 :: int32]] ! 1 ! 0) = - 2147483648 \<and>
   sint ([[2147483647], [2147483648 :: int32]] ! 0 ! 0) + sint ([[2147483647], [1 :: int32]] ! 1 ! 0) =
     2147483648"
  by (simp add: computation_times_def nrows_def ncols_def has_shape_def set_col0_def
      set_row0_def column_def cumsum_def row_loop_def)


section \<open>Makespan\<close>

















lemma is_permutation_mset:
  "is_permutation n sol \<Longrightarrow> mset sol = mset (map int [0..<n])"
  unfolding is_permutation_def by (metis mset_sort)


lemma is_permutation_length:
  "is_permutation n sol \<Longrightarrow> length sol = n"
  using is_permutation_mset [THEN arg_cong [where f = size]] by simp

lemma fancy_index_in_range:
  "\<forall>s\<in>set sol. 0 \<le> s \<and> s < int (length a) \<Longrightarrow>
   fancy_index a sol = Some (map (\<lambda>s. a ! nat s) sol)"
  by (induction sol) (auto simp: py_index_def)






lemma last_column_shape:
  assumes "has_shape n m C" "0 < m"
  shows "last_column C = Some (map (\<lambda>r. r ! (m - 1)) C)"
proof -
  have "r \<noteq> [] \<and> last r = r ! (m - 1)" if "r \<in> set C" for r
    using that assms by (auto simp: has_shape_def list_all_iff last_conv_nth)
  then show ?thesis
    by (auto simp: last_column_def list_ex_iff)
qed





section \<open>The Pareto set stays mutually non-dominated\<close>

lemma dominates_irrefl: "\<not> dominates a a"
  by (auto simp: dominates_def split: prod.splits)

lemma dominates_entry:
  "dominates (entry ((wt, m), sol)) c = dominates (wt, m, sol) c"
  "dominates c (entry ((wt, m), sol)) = dominates c (wt, m, sol)"
  by (simp_all add: entry_def)

lemma update_fresh:
  "k \<notin> fst ` set al \<Longrightarrow> AList.update k v al = al @ [(k, v)]"
  by (induction al) auto

lemma set_update_distinct:
  "distinct (map fst al) \<Longrightarrow>
   set (AList.update k v al) = {e \<in> set al. fst e \<noteq> k} \<union> {(k, v)}"
  by (induction al) (auto simp: rev_image_eqI)

lemma pareto_scan_dominated:
  "\<exists>e\<in>set ps. dominates (entry e) new \<Longrightarrow> fst (pareto_scan ps new acc imp) = True"
  by (induction ps new acc imp rule: pareto_scan.induct) (auto simp: entry_def)

lemma pareto_scan_not_dominated:
  "\<forall>e\<in>set ps. \<not> dominates (entry e) new \<Longrightarrow> distinct (map fst (acc @ ps)) \<Longrightarrow>
   pareto_scan ps new acc imp =
     (False, acc @ filter (\<lambda>e. \<not> dominates new (entry e)) ps,
      imp \<or> (\<exists>e\<in>set ps. dominates new (entry e)))"
proof (induction ps new acc imp rule: pareto_scan.induct)
  case (1 new acc imp)
  then show ?case by simp
next
  case (2 wt m sol rest new acc imp)
  from 2(3) have nd: "\<not> dominates (wt, m, sol) new" by (simp add: entry_def)
  show ?case
  proof (cases "dominates new (wt, m, sol)")
    case True
    with 2 nd show ?thesis by (auto simp: entry_def)
  next
    case False
    from 2(4) have fresh: "(wt, m) \<notin> fst ` set acc" by auto
    then have upd: "AList.update (wt, m) sol acc = acc @ [((wt, m), sol)]"
      by (rule update_fresh)
    from 2(4) have "distinct (map fst ((acc @ [((wt, m), sol)]) @ rest))" by simp
    with 2(1) [OF nd False] 2(3) nd False upd show ?thesis
      by (auto simp: entry_def)
  qed
qed

lemma pareto_update_dominated:
  assumes "\<exists>e\<in>set ps. dominates (entry e) new"
  shows "fst (pareto_update ps new) = ps"
  using pareto_scan_dominated [OF assms, of "[]" False]
  by (auto simp: pareto_update_def split: prod.splits)

lemma pareto_update_not_dominated:
  assumes "\<forall>e\<in>set ps. \<not> dominates (entry e) (wt, m, sol)" and "distinct (map fst ps)"
  shows "fst (pareto_update ps (wt, m, sol)) =
         AList.update (wt, m) sol (filter (\<lambda>e. \<not> dominates (wt, m, sol) (entry e)) ps)"
  using pareto_scan_not_dominated [OF assms(1), of "[]" False] assms(2)
  by (simp add: pareto_update_def)

text \<open>
  Claim C7, as amended. On a Pareto set with distinct keys and mutually non-dominated
  entries, updating with a candidate \<open>(wt, m, sol)\<close> leaves the set unchanged if some incumbent
  dominates the candidate; otherwise the new set holds the candidate and exactly the
  incumbents that the candidate does not dominate and whose pair \<open>(wt, m)\<close> is not the
  candidate's (an incumbent with the candidate's pair is overwritten by it). In both cases
  the keys stay distinct and the entries mutually non-dominated.
\<close>

theorem pareto_update_invariant:
  assumes keys: "distinct (map fst ps)" and inv: "mutually_nondominated ps"
  shows "((\<exists>e\<in>set ps. dominates (entry e) (wt, m, sol)) \<longrightarrow>
            fst (pareto_update ps (wt, m, sol)) = ps) \<and>
         (\<not> (\<exists>e\<in>set ps. dominates (entry e) (wt, m, sol)) \<longrightarrow>
            set (fst (pareto_update ps (wt, m, sol))) =
              {e \<in> set ps. \<not> dominates (wt, m, sol) (entry e) \<and> fst e \<noteq> (wt, m)} \<union>
              {((wt, m), sol)}) \<and>
         distinct (map fst (fst (pareto_update ps (wt, m, sol)))) \<and>
         mutually_nondominated (fst (pareto_update ps (wt, m, sol)))"
proof (cases "\<exists>e\<in>set ps. dominates (entry e) (wt, m, sol)")
  case True
  then show ?thesis
    using pareto_update_dominated [OF True] keys inv by simp
next
  case False
  define kept where "kept = filter (\<lambda>e. \<not> dominates (wt, m, sol) (entry e)) ps"
  define ps' where "ps' = fst (pareto_update ps (wt, m, sol))"
  from False have nd: "\<forall>e\<in>set ps. \<not> dominates (entry e) (wt, m, sol)" by simp
  have upd: "ps' = AList.update (wt, m) sol kept"
    unfolding ps'_def kept_def by (rule pareto_update_not_dominated [OF nd keys])
  have dk: "distinct (map fst kept)"
    unfolding kept_def using keys by (rule distinct_map_filter)
  have set': "set ps' = {e \<in> set ps. \<not> dominates (wt, m, sol) (entry e) \<and> fst e \<noteq> (wt, m)} \<union>
                 {((wt, m), sol)}"
    unfolding upd set_update_distinct [OF dk] by (auto simp: kept_def)
  have d': "distinct (map fst ps')"
    unfolding upd using dk by (rule distinct_update)
  have "\<not> dominates (entry a) (entry b)" if ab: "a \<in> set ps'" "b \<in> set ps'" for a b
  proof -
    have new: "entry ((wt, m), sol) = (wt, m, sol)" by (simp add: entry_def)
    consider "a \<in> set ps" "b \<in> set ps" "\<not> dominates (wt, m, sol) (entry b)"
      | "a = ((wt, m), sol)" "b \<in> set ps" "\<not> dominates (wt, m, sol) (entry b)"
      | "a \<in> set ps" "b = ((wt, m), sol)"
      | "a = ((wt, m), sol)" "b = ((wt, m), sol)"
    proof -
      from ab(1) have "a \<in> set ps \<or> a = ((wt, m), sol)"
        unfolding set' by auto
      moreover from ab(2) have
        "b \<in> set ps \<and> \<not> dominates (wt, m, sol) (entry b) \<or> b = ((wt, m), sol)"
        unfolding set' by auto
      ultimately show ?thesis using that by blast
    qed
    then show ?thesis
    proof cases
      case 1
      then show ?thesis using inv by (simp add: mutually_nondominated_def)
    next
      case 2
      then show ?thesis by (simp add: new)
    next
      case 3
      then show ?thesis using nd by (simp add: new)
    next
      case 4
      then show ?thesis by (simp add: dominates_irrefl)
    qed
  qed
  then have "mutually_nondominated ps'" by (simp add: mutually_nondominated_def)
  with False set' d' show ?thesis by (simp add: ps'_def)
qed

theorem pareto_update_invariant_witness:
  "distinct (map fst [((10 :: int, 20 :: int), [0]), ((12, 15), [1 :: int])]) \<and>
   mutually_nondominated [((10, 20), [0]), ((12, 15), [1])] \<and>
   set (fst (pareto_update [((10, 20), [0]), ((12, 15), [1])] (11, 14, [2]))) =
     {((10, 20), [0]), ((11, 14), [2])} \<and>
   mutually_nondominated (fst (pareto_update [((10, 20), [0]), ((12, 15), [1])] (11, 14, [2])))"
proof -
  let ?ps = "[((10 :: int, 20 :: int), [0]), ((12, 15), [1 :: int])]"
  have keys: "distinct (map fst ?ps)" by simp
  have inv: "mutually_nondominated ?ps"
    by (simp add: mutually_nondominated_def dominates_def entry_def)
  have nd: "\<not> (\<exists>e\<in>set ?ps. dominates (entry e) (11, 14, [2]))"
    by (simp add: dominates_def entry_def)
  have kept: "{e \<in> set ?ps. \<not> dominates (11, 14, [2]) (entry e) \<and> fst e \<noteq> (11, 14)} =
              {((10, 20), [0])}"
    by (auto simp: dominates_def entry_def)
  from pareto_update_invariant [OF keys inv, of 11 14 "[2]"] nd
  have "set (fst (pareto_update ?ps (11, 14, [2]))) =
          {e \<in> set ?ps. \<not> dominates (11, 14, [2]) (entry e) \<and> fst e \<noteq> (11, 14)} \<union>
          {((11, 14), [2])}"
    and "mutually_nondominated (fst (pareto_update ?ps (11, 14, [2])))"
    by blast+
  with keys inv kept show ?thesis by auto
qed

text \<open>
  The claim as stated fails on a tie: an incumbent with the candidate's own pair \<open>(wt, m)\<close> is
  not dominated by the candidate, yet the candidate's solution replaces it in the dictionary.
\<close>

theorem pareto_tie_counterexample:
  "mutually_nondominated [((10, 20), [0, 1])] \<and>
   \<not> dominates (entry ((10, 20), [0, 1])) (10, 20, [1, 0]) \<and>
   \<not> dominates (10, 20, [1, 0]) (entry ((10, 20), [0, 1])) \<and>
   fst (pareto_update [((10, 20), [0, 1])] (10, 20, [1, 0])) = [((10, 20), [1, 0])] \<and>
   ((10, 20), [0, 1]) \<notin> set (fst (pareto_update [((10, 20), [0, 1])] (10, 20, [1, 0])))"
  by (simp add: mutually_nondominated_def dominates_def entry_def pareto_update_def)

section \<open>Stopping\<close>

lemma base_init_ok: "opt_ok (base_init ni es mt sd ext)"
  by (simp add: opt_ok_def base_init_def)

lemma start_ok: "opt_ok st \<Longrightarrow> opt_ok (start st now)"
  by (auto simp: opt_ok_def start_def Let_def)

lemma step_ok: "opt_ok st \<Longrightarrow> opt_ok (step st)"
  by (simp add: opt_ok_def step_def)

text \<open>
  Claim C5. In every state of the optimizer (a start time exists only with a time bound),
  \<open>is_running\<close> returns, and it returns \<open>False\<close> exactly when the time elapsed since \<open>start\<close>
  exceeds \<open>max_time\<close>, or the number of steps without improvement exceeds
  \<open>early_stopping\<close>, or the iteration counter has reached \<open>max_n_iterations\<close>. With no time
  bound, no early-stopping bound and unbounded iterations it returns \<open>True\<close>.
\<close>

theorem is_running_iff:
  assumes "opt_ok st"
  shows "(\<exists>b. is_running st now = Inr b \<and>
            (\<not> b \<longleftrightarrow>
               (\<exists>t mt. opt_t0 st = Some t \<and> opt_max_time st = Some mt \<and> mt < now - t) \<or>
               (\<exists>es. opt_early_stopping st = Some es \<and>
                     es < enat (opt_n_steps_without_improvement st)) \<or>
               opt_max_n_iterations st \<le> enat (opt_n_iterations st))) \<and>
         (opt_max_time st = None \<and> opt_early_stopping st \<in> {None, Some \<infinity>} \<and>
          opt_max_n_iterations st = \<infinity> \<longrightarrow> is_running st now = Inr True)"
  using assms
  by (auto simp: is_running_def opt_ok_def split: option.splits)

theorem is_running_iff_witness:
  "opt_ok (start (base_init \<infinity> (Some \<infinity>) (Some 30) None ()) 0) \<and>
   is_running (start (base_init \<infinity> (Some \<infinity>) (Some 30) None ()) 0) 31 = Inr False \<and>
   opt_ok (start (base_init \<infinity> (Some \<infinity>) None None ()) 0) \<and>
   is_running (start (base_init \<infinity> (Some \<infinity>) None None ()) 0) 31 = Inr True"
proof -
  let ?st = "start (base_init \<infinity> (Some \<infinity>) (Some 30) None ()) 0"
  let ?df = "start (base_init \<infinity> (Some \<infinity>) None None ()) 0"
  have ok: "opt_ok ?st" by (rule start_ok [OF base_init_ok])
  have okd: "opt_ok ?df" by (rule start_ok [OF base_init_ok])
  have late: "\<exists>t mt. opt_t0 ?st = Some t \<and> opt_max_time ?st = Some mt \<and> mt < 31 - t"
    by (simp add: start_def base_init_def)
  from is_running_iff [OF ok, of 31] late have "is_running ?st 31 = Inr False"
    by auto
  moreover have "opt_max_time ?df = None \<and> opt_early_stopping ?df \<in> {None, Some \<infinity>} \<and>
      opt_max_n_iterations ?df = \<infinity>"
    by (simp add: start_def base_init_def)
  with is_running_iff [OF okd, of 31] have "is_running ?df 31 = Inr True"
    by blast
  ultimately show ?thesis using ok okd by simp
qed

section \<open>Pheromone updates evaluate the ant\<close>

lemmas kernel_defs = computation_times_def nrows_def ncols_def has_shape_def
  set_col0_def set_row0_def column_def cumsum_def row_loop_def cell_step_def set_cell_def
  smax_def word_sless_alt

lemmas objective_defs = weighted_tardiness_def objective_def refresh_c_def py_index_def
  last_column_def weighted_tardiness_body_def np_dot_def

lemmas optimizer_defs = evaluate_def optimizer_evaluate_def less_Zbest_def
  start_def base_init_def optimizer.fields_def is_running_def

lemmas colony_defs = aco_evaluate_def colony_def unit_instance_def tiny_instance_def
  started_optimizer_def inst_n_def update_pheromones_def mmas_update_pheromones_def
  add_cell_def np_clip_def pheromones_are_individual_def update_parameters_def
  mmas_update_parameters_def

lemma aco_evaluate_effect:
  assumes "aco_evaluate A ant = Inr (z, A1)"
  shows "opt_objective (aco_optimizer A1) = opt_objective (aco_optimizer A) @ [[z]]"
    and "opt_n_steps_without_improvement (aco_optimizer A1) = 0 \<or>
         opt_n_steps_without_improvement (aco_optimizer A1) =
           opt_n_steps_without_improvement (aco_optimizer A) + 1"
    and "aco_policy A1 = aco_policy A"
  using assms
  by (auto simp: aco_evaluate_def evaluate_def optimizer_evaluate_def Let_def
      split: sum.splits prod.splits if_splits list.splits)

lemma update_pheromones_effect:
  assumes "update_pheromones A ant = Inr A'"
  shows "\<exists>Z A1. aco_evaluate A ant = Inr (Z, A1) \<and> aco_optimizer A' = aco_optimizer A1 \<and>
           aco_policy A' = aco_policy A1"
  using assms
  by (auto simp: update_pheromones_def mmas_update_pheromones_def paco_update_pheromones_def
      Let_def split: policy.splits sum.splits prod.splits if_splits option.splits)

lemma update_parameters_effect:
  "aco_optimizer (update_parameters A) = aco_optimizer A"
  "aco_policy (update_parameters A) = aco_policy A"
  by (auto simp: update_parameters_def mmas_update_parameters_def Let_def
      split: policy.splits)

lemma update_pheromones_history:
  assumes "update_pheromones A ant = Inr A'"
  shows "history_length A' = history_length A + 1" and "aco_policy A' = aco_policy A"
proof -
  from update_pheromones_effect [OF assms] obtain Z A1 where
    ev: "aco_evaluate A ant = Inr (Z, A1)" and eq: "aco_optimizer A' = aco_optimizer A1"
    "aco_policy A' = aco_policy A1"
    by blast
  from aco_evaluate_effect [OF ev] eq
  show "history_length A' = history_length A + 1" and "aco_policy A' = aco_policy A"
    by simp_all
qed

lemma ant_loop_history:
  assumes "ant_loop A ants evaluated = Inr (A', evaluated')"
  shows "aco_policy A' = aco_policy A \<and> length evaluated \<le> length evaluated' \<and>
         history_length A' = history_length A +
           (length evaluated' - length evaluated) *
           (if pheromones_are_individual (aco_policy A) then 2 else 1)"
  using assms
proof (induction A ants evaluated rule: ant_loop.induct)
  case (1 A evaluated)
  then show ?case by simp
next
  case (2 A ant now rest evaluated)
  let ?ind = "pheromones_are_individual (aco_policy A)"
  from 2(2) obtain A1 where
    up: "(if ?ind then update_pheromones A ant else Inr A) = Inr A1"
    by (auto split: sum.splits)
  from 2(2) up obtain score A2 where ev: "aco_evaluate A1 ant = Inr (score, A2)"
    by (auto split: sum.splits)
  define A3 where "A3 = (if score < aco_Zbest A2 then A2\<lparr>aco_Zbest := score, aco_best := ant\<rparr>
                    else A2)"
  from 2(2) up ev obtain running where run: "is_running (aco_optimizer A3) now = Inr running"
    by (auto simp: A3_def Let_def split: sum.splits)
  have h1: "history_length A1 = history_length A + (if ?ind then 1 else 0)"
    "aco_policy A1 = aco_policy A"
    using up update_pheromones_history [of A ant A1] by (auto split: if_splits)
  have h3: "history_length A3 = history_length A + (if ?ind then 2 else 1)"
    "aco_policy A3 = aco_policy A"
    using h1 aco_evaluate_effect(1,3) [OF ev] by (auto simp: A3_def)
  show ?case
  proof (cases running)
    case False
    with 2(2) up ev run have "A' = A3" "evaluated' = evaluated @ [(ant, score)]"
      by (auto simp: A3_def Let_def)
    with h3 show ?thesis by simp
  next
    case True
    with 2(2) up ev run
    have rec: "ant_loop A3 rest (evaluated @ [(ant, score)]) = Inr (A', evaluated')"
      by (auto simp: A3_def Let_def)
    from True have nn: "\<not> \<not> running" by simp
    have "aco_policy A' = aco_policy A3 \<and>
          length (evaluated @ [(ant, score)]) \<le> length evaluated' \<and>
          history_length A' = history_length A3 +
            (length evaluated' - length (evaluated @ [(ant, score)])) *
            (if pheromones_are_individual (aco_policy A3) then 2 else 1)"
      by (rule 2(1) [OF up ev refl A3_def run nn rec])
    with h3 show ?thesis by (auto simp: algebra_simps)
  qed
qed

lemma aco_step_history:
  assumes "aco_step A ants = Inr (A', evaluated)"
  shows "history_length A' = history_length A +
           (if pheromones_are_individual (aco_policy A) then 2 * length evaluated
            else length evaluated + 1)"
    and "evaluated \<noteq> []"
proof -
  from assms obtain A1 where
    loop: "ant_loop A (take (aco_n_ants A) ants) [] = Inr (A1, evaluated)"
    by (auto simp: aco_step_def split: sum.splits option.splits prod.splits)
  from assms loop obtain x where x: "np_argmin (map snd evaluated) = Some x"
    by (auto simp: aco_step_def split: sum.splits option.splits)
  then show ne: "evaluated \<noteq> []" by (auto simp: np_argmin_def)
  let ?ind = "pheromones_are_individual (aco_policy A1)"
  from assms loop x obtain A2 where
    up: "(if \<not> ?ind then update_pheromones A1 (fst (evaluated ! x)) else Inr A1) = Inr A2"
    by (auto simp: aco_step_def split: sum.splits)
  from assms loop x up have par: "A' = update_parameters A2"
    by (auto simp: aco_step_def split: sum.splits)
  from ant_loop_history [OF loop] have
    h1: "history_length A1 = history_length A + length evaluated * (if ?ind then 2 else 1)"
    and pol: "aco_policy A1 = aco_policy A"
    by simp_all
  have h2: "history_length A2 = history_length A1 + (if ?ind then 0 else 1)"
    using up update_pheromones_history [of A1 "fst (evaluated ! x)" A2]
    by (auto split: if_splits)
  have h3: "history_length A' = history_length A2"
    using update_parameters_effect [of A2] par by simp
  from h1 h2 h3 pol
  show "history_length A' = history_length A +
           (if pheromones_are_individual (aco_policy A) then 2 * length evaluated
            else length evaluated + 1)"
    by (auto split: if_splits)
qed

text \<open>
  The calls return: on a colony as \<open>initialize\<close> leaves it and an ant whose entries index
  the jobs, no step of the evaluation or of the update raises.
\<close>

lemma fancy_index_ok:
  assumes "list_all (\<lambda>s. - int (length a) \<le> s \<and> s < int (length a)) sol"
  shows "\<exists>r. fancy_index a sol = Some r \<and> length r = length sol \<and> set r \<subseteq> set a"
  using assms
proof (induction sol)
  case Nil
  then show ?case by simp
next
  case (Cons s sol)
  then obtain r where r: "fancy_index a sol = Some r" "length r = length sol" "set r \<subseteq> set a"
    by auto
  from Cons.prems have s: "- int (length a) \<le> s" "s < int (length a)" by simp_all
  then obtain i where i: "py_index (length a) s = Some i" "i < length a"
    by (cases "0 \<le> s") (auto simp: py_index_def)
  with r show ?case by auto
qed

lemma index_all_ok:
  assumes "list_all (\<lambda>s. - int n \<le> s \<and> s < int n) sol"
  shows "\<exists>r. index_all n sol = Some r"
  using assms
proof (induction sol)
  case Nil
  then show ?case by simp
next
  case (Cons s sol)
  then obtain r where r: "index_all n sol = Some r" by auto
  from Cons.prems have s: "- int n \<le> s" "s < int n" by simp_all
  then obtain i where i: "py_index n s = Some i"
    by (cases "0 \<le> s") (auto simp: py_index_def)
  with r show ?case by auto
qed

lemma refresh_c_ok:
  assumes I: "instance_ok n m I" and n: "0 < n" and m: "0 < m" and ant: "ant_ok n ant"
  shows "\<exists>I'. refresh_c I ant = Inr I' \<and> instance_ok n m I'"
proof -
  from I have p: "has_shape n m (inst_p I)" and c: "has_shape n m (inst_c I)"
    by (simp_all add: instance_ok_def)
  from p have lp: "length (inst_p I) = n" by (simp add: has_shapeD)
  from ant have "list_all (\<lambda>s. - int (length (inst_p I)) \<le> s \<and> s < int (length (inst_p I))) ant"
    by (simp add: ant_ok_def lp)
  from fancy_index_ok [OF this] obtain ordered_p where
    op: "fancy_index (inst_p I) ant = Some ordered_p" "length ordered_p = length ant"
      "set ordered_p \<subseteq> set (inst_p I)"
    by blast
  have "has_shape n m ordered_p"
    using op(2,3) p ant by (auto simp: has_shape_def list_all_iff ant_ok_def)
  from computation_times_rec [OF this c n m] obtain C where
    C: "computation_times (inst_c I) ordered_p = Some C" "has_shape n m C"
    by blast
  with op(1) I show ?thesis
    by (simp add: refresh_c_def instance_ok_def)
qed

lemma weighted_tardiness_ok:
  assumes I: "instance_ok n m I" and n: "0 < n" and m: "0 < m" and ant: "ant_ok n ant"
  shows "\<exists>wt I'. weighted_tardiness I ant True = Inr (wt, I') \<and> instance_ok n m I'"
proof -
  from refresh_c_ok [OF assms] obtain I' where
    r: "refresh_c I ant = Inr I'" and I': "instance_ok n m I'"
    by blast
  from I' have ld: "length (inst_d I') = n" and lw: "length (inst_w I') = n"
    and c: "has_shape n m (inst_c I')"
    by (simp_all add: instance_ok_def)
  from ant have "list_all (\<lambda>s. - int (length (inst_d I')) \<le> s \<and> s < int (length (inst_d I'))) ant"
    by (simp add: ant_ok_def ld)
  from fancy_index_ok [OF this] obtain d where
    d: "fancy_index (inst_d I') ant = Some d" "length d = length ant"
    by blast
  from ant have "list_all (\<lambda>s. - int (length (inst_w I')) \<le> s \<and> s < int (length (inst_w I'))) ant"
    by (simp add: ant_ok_def lw)
  from fancy_index_ok [OF this] obtain w where
    w: "fancy_index (inst_w I') ant = Some w"
    by blast
  have col: "last_column (inst_c I') = Some (map (\<lambda>r. r ! (m - 1)) (inst_c I'))"
    by (rule last_column_shape [OF c m])
  have "length (map (\<lambda>r. r ! (m - 1)) (inst_c I')) = length d"
    using c d(2) ant by (simp add: has_shapeD ant_ok_def)
  with r d(1) w col I' show ?thesis
    by (simp add: weighted_tardiness_def objective_def weighted_tardiness_body_def)
qed

lemma is_running_ok: "opt_ok st \<Longrightarrow> \<exists>b. is_running st now = Inr b"
  by (auto simp: is_running_def opt_ok_def split: option.splits)

lemma aco_evaluate_ok:
  assumes A: "colony_ok n m A" and ant: "ant_ok n ant"
  shows "\<exists>Z A1. aco_evaluate A ant = Inr (Z, A1) \<and> colony_ok n m A1 \<and>
           aco_n_ants A1 = aco_n_ants A"
proof -
  from A have I: "instance_ok n m (aco_instance A)" and n: "0 < n" and m: "0 < m"
    by (simp_all add: colony_ok_def)
  from weighted_tardiness_ok [OF I n m ant] obtain wt I' where
    wt: "weighted_tardiness (aco_instance A) ant True = Inr (wt, I')"
    and I': "instance_ok n m I'"
    by blast
  with A show ?thesis
    by (auto simp: aco_evaluate_def evaluate_def optimizer_evaluate_def Let_def colony_ok_def
        opt_ok_def)
qed

lemma has_shape_map_map: "has_shape n m t \<Longrightarrow> has_shape n m (map (map f) t)"
  by (simp add: has_shape_def list_all_iff)

lemma add_cell_shape:
  assumes "has_shape n m t"
  shows "has_shape n m (add_cell t i k v)"
proof (rule has_shapeI)
  show "length (add_cell t i k v) = n"
    using assms by (simp add: add_cell_def has_shapeD)
next
  fix j
  assume "j < n"
  with assms have "length (t ! j) = m" "j < length t" by (simp_all add: has_shapeD)
  then show "length (add_cell t i k v ! j) = m"
    by (cases "i = j") (simp_all add: add_cell_def)
qed

lemma fold_add_cell_shape:
  "has_shape n m t \<Longrightarrow> has_shape n m (fold (\<lambda>k t. add_cell t (f k) k v) ks t)"
  by (induction ks arbitrary: t) (simp_all add: add_cell_shape)

lemma has_shape_table: "has_shape n n (map (\<lambda>i. map (g i) [0..<n]) [0..<n])"
  by (simp add: has_shape_def list_all_iff)

lemma update_pheromones_ok:
  assumes A: "colony_ok n m A" and ant: "ant_ok n ant"
  shows "\<exists>A'. update_pheromones A ant = Inr A' \<and> colony_ok n m A' \<and>
           aco_n_ants A' = aco_n_ants A"
proof -
  from aco_evaluate_ok [OF assms] obtain Z A1 where
    ev: "aco_evaluate A ant = Inr (Z, A1)" and A1: "colony_ok n m A1"
    and na: "aco_n_ants A1 = aco_n_ants A"
    by blast
  from A1 have n1: "inst_n (aco_instance A1) = n"
    by (simp add: colony_ok_def instance_ok_def inst_n_def nrows_def has_shape_def)
  from A1 have tau: "has_shape n n (aco_tau A1)" and best: "length (aco_best A1) = n"
    by (simp_all add: colony_ok_def)
  from ant have len: "length ant = n" by (simp add: ant_ok_def)
  from ant have "list_all (\<lambda>s. - int n \<le> s \<and> s < int n) ant" by (simp add: ant_ok_def)
  from index_all_ok [OF this] obtain indices where ix: "index_all n ant = Some indices"
    by blast
  show ?thesis
  proof (cases "aco_policy A")
    case MMAS
    define tau3 where "tau3 =
      map (map (np_clip (aco_tau_min A1) (aco_tau_max A1)))
        (fold (\<lambda>k t. add_cell t (indices ! k) k (np_reciprocal (real_of_int Z) False)) [0..<n]
           (map (map (\<lambda>x. np_mul x (aco_rho A1))) (aco_tau A1)))"
    have up: "update_pheromones A ant = Inr (A1\<lparr>aco_tau := tau3\<rparr>)"
      using MMAS ev n1 tau len ix
      by (simp add: update_pheromones_def mmas_update_pheromones_def Let_def tau3_def)
    have "has_shape n n tau3"
      unfolding tau3_def
      by (intro has_shape_map_map fold_add_cell_shape tau)
    with A1 have "colony_ok n m (A1\<lparr>aco_tau := tau3\<rparr>)"
      by (simp add: colony_ok_def)
    with up na show ?thesis by simp
  next
    case PACO
    define tau3 where "tau3 =
      map (\<lambda>i. map (\<lambda>k.
             let t = np_mul (aco_tau A1 ! i ! k) (aco_rho A1) in
             if \<bar>np_argsort ant ! i - int k\<bar> \<le> (if n \<le> 40 then 1 else 2)
             then np_add t
                    (np_reciprocal (sqrt (real_of_int \<bar>aco_best A1 ! i - int k\<bar> + 1) *
                                    real_of_int Z) False)
             else t) [0..<n]) [0..<n]"
    have up: "update_pheromones A ant = Inr (A1\<lparr>aco_tau := tau3\<rparr>)"
      using PACO ev n1 tau len best
      by (simp add: update_pheromones_def paco_update_pheromones_def Let_def tau3_def)
    have "has_shape n n tau3"
      unfolding tau3_def by (rule has_shape_table)
    with A1 have "colony_ok n m (A1\<lparr>aco_tau := tau3\<rparr>)"
      by (simp add: colony_ok_def)
    with up na show ?thesis by simp
  qed
qed

lemma update_parameters_ok:
  "colony_ok n m A \<Longrightarrow> colony_ok n m (update_parameters A)"
  by (simp add: colony_ok_def update_parameters_def mmas_update_parameters_def Let_def
      split: policy.splits)

lemma ant_loop_ok:
  assumes "colony_ok n m A" and "list_all (\<lambda>a. ant_ok n (fst a)) ants"
    and "list_all (\<lambda>a. ant_ok n (fst a)) evaluated"
  shows "\<exists>A' ev. ant_loop A ants evaluated = Inr (A', ev) \<and> colony_ok n m A' \<and>
           list_all (\<lambda>a. ant_ok n (fst a)) ev \<and> (ants = [] \<longrightarrow> ev = evaluated) \<and>
           (ants \<noteq> [] \<longrightarrow> ev \<noteq> [])"
  using assms
proof (induction ants arbitrary: A evaluated)
  case Nil
  then show ?case by simp
next
  case (Cons a rest)
  obtain ant now where a: "a = (ant, now)" by (cases a)
  from Cons.prems(2) a have ant: "ant_ok n ant"
    and rest: "list_all (\<lambda>a. ant_ok n (fst a)) rest"
    by simp_all
  let ?ind = "pheromones_are_individual (aco_policy A)"
  have "\<exists>A1. (if ?ind then update_pheromones A ant else Inr A) = Inr A1 \<and> colony_ok n m A1"
    using update_pheromones_ok [OF Cons.prems(1) ant] Cons.prems(1) by auto
  then obtain A1 where
    up: "(if ?ind then update_pheromones A ant else Inr A) = Inr A1" and A1: "colony_ok n m A1"
    by blast
  from aco_evaluate_ok [OF A1 ant] obtain score A2 where
    ev: "aco_evaluate A1 ant = Inr (score, A2)" and A2: "colony_ok n m A2"
    by blast
  define A3 where "A3 = (if score < aco_Zbest A2 then A2\<lparr>aco_Zbest := score, aco_best := ant\<rparr>
                    else A2)"
  have A3: "colony_ok n m A3"
    using A2 ant by (simp add: A3_def colony_ok_def ant_ok_def)
  then have "opt_ok (aco_optimizer A3)" by (simp add: colony_ok_def)
  from is_running_ok [OF this] obtain running where
    run: "is_running (aco_optimizer A3) now = Inr running"
    by blast
  have ev': "list_all (\<lambda>a. ant_ok n (fst a)) (evaluated @ [(ant, score)])"
    using Cons.prems(3) ant by simp
  have unfold: "ant_loop A (a # rest) evaluated =
      (if \<not> running then Inr (A3, evaluated @ [(ant, score)])
       else ant_loop A3 rest (evaluated @ [(ant, score)]))"
    using up ev run by (simp add: a A3_def Let_def)
  show ?case
  proof (cases running)
    case False
    with unfold A3 ev' show ?thesis by simp
  next
    case True
    from Cons.IH [OF A3 rest ev'] obtain A' ev2 where
      r: "ant_loop A3 rest (evaluated @ [(ant, score)]) = Inr (A', ev2)"
        "colony_ok n m A'" "list_all (\<lambda>a. ant_ok n (fst a)) ev2"
        "rest = [] \<longrightarrow> ev2 = evaluated @ [(ant, score)]" "rest \<noteq> [] \<longrightarrow> ev2 \<noteq> []"
      by blast
    then have "ev2 \<noteq> []" by (cases "rest = []") auto
    with True unfold r show ?thesis by simp
  qed
qed

lemma np_argmin_from_less:
  "best_i < i \<Longrightarrow> np_argmin_from best_i best_v i xs < i + length xs"
proof (induction xs arbitrary: best_i best_v i)
  case Nil
  then show ?case by simp
next
  case (Cons x xs)
  have a: "np_argmin_from i x (Suc i) xs < Suc i + length xs"
    using Cons.IH [of i "Suc i" x] by simp
  have b: "np_argmin_from best_i best_v (Suc i) xs < Suc i + length xs"
    using Cons.IH [of best_i "Suc i" best_v] Cons.prems by simp
  from a b show ?case by simp
qed

lemma np_argmin_ok: "xs \<noteq> [] \<Longrightarrow> \<exists>x. np_argmin xs = Some x \<and> x < length xs"
proof (cases xs)
  case Nil
  assume "xs \<noteq> []"
  with Nil show ?thesis by simp
next
  case (Cons v r)
  from np_argmin_from_less [of 0 1 v r] show ?thesis
    by (simp add: np_argmin_def Cons)
qed

lemma aco_step_ok:
  assumes A: "colony_ok n m A" and ants: "list_all (\<lambda>a. ant_ok n (fst a)) ants"
    and k: "0 < aco_n_ants A" and len: "aco_n_ants A \<le> length ants"
  shows "\<exists>A' evaluated. aco_step A ants = Inr (A', evaluated)"
proof -
  let ?ants = "take (aco_n_ants A) ants"
  have t: "list_all (\<lambda>a. ant_ok n (fst a)) ?ants"
    using ants by (auto simp: list_all_iff dest: in_set_takeD)
  have ne: "?ants \<noteq> []" using k len by auto
  have e: "list_all (\<lambda>a. ant_ok n (fst a)) []" by simp
  from ant_loop_ok [OF A t e] ne obtain A1 evaluated where
    loop: "ant_loop A ?ants [] = Inr (A1, evaluated)" and A1: "colony_ok n m A1"
    and ev: "list_all (\<lambda>a. ant_ok n (fst a)) evaluated" and ne': "evaluated \<noteq> []"
    by blast
  from ne' have "map snd evaluated \<noteq> []" by simp
  from np_argmin_ok [OF this] obtain x where
    x: "np_argmin (map snd evaluated) = Some x" "x < length evaluated"
    by auto
  from ev x(2) have "ant_ok n (fst (evaluated ! x))"
    by (simp add: list_all_length)
  from update_pheromones_ok [OF A1 this] obtain A2 where
    "update_pheromones A1 (fst (evaluated ! x)) = Inr A2"
    by blast
  with loop x(1) show ?thesis
    by (simp add: aco_step_def)
qed

text \<open>
  Claim C10. On a colony as \<open>initialize\<close> leaves it (any instance, either policy) and for
  every ant whose entries index the jobs, whatever its score, a call of \<open>update_pheromones\<close>
  returns and has evaluated the ant through the optimizer: the history has the ant's
  objective tuple appended and the stagnation counter is reset or incremented. Hence
  \<open>step\<close>, which returns too, leaves a history that has grown by more entries than the
  number of ants the loop evaluated: by one more under MMAS, by twice as many under PACO.
\<close>

theorem update_pheromones_evaluates:
  assumes "colony_ok n m A" and "ant_ok n ant"
    and "list_all (\<lambda>a. ant_ok n (fst a)) ants"
    and "0 < aco_n_ants A" and "aco_n_ants A \<le> length ants"
  shows "(\<exists>Z A1 A'. aco_evaluate A ant = Inr (Z, A1) \<and> update_pheromones A ant = Inr A' \<and>
            aco_optimizer A' = aco_optimizer A1 \<and>
            opt_objective (aco_optimizer A') = opt_objective (aco_optimizer A) @ [[Z]] \<and>
            (opt_n_steps_without_improvement (aco_optimizer A') = 0 \<or>
             opt_n_steps_without_improvement (aco_optimizer A') =
               opt_n_steps_without_improvement (aco_optimizer A) + 1)) \<and>
         (\<exists>A' evaluated. aco_step A ants = Inr (A', evaluated) \<and> evaluated \<noteq> [] \<and>
            history_length A' = history_length A +
              (if pheromones_are_individual (aco_policy A) then 2 * length evaluated
               else length evaluated + 1) \<and>
            history_length A + length evaluated < history_length A')"
proof (rule conjI)
  from update_pheromones_ok [OF assms(1,2)] obtain A' where
    up: "update_pheromones A ant = Inr A'"
    by blast
  from update_pheromones_effect [OF up] obtain Z A1 where
    ev: "aco_evaluate A ant = Inr (Z, A1)" and eq: "aco_optimizer A' = aco_optimizer A1"
    by blast
  have h: "opt_objective (aco_optimizer A') = opt_objective (aco_optimizer A) @ [[Z]]"
    using aco_evaluate_effect(1) [OF ev] eq by simp
  have c: "opt_n_steps_without_improvement (aco_optimizer A') = 0 \<or>
        opt_n_steps_without_improvement (aco_optimizer A') =
          opt_n_steps_without_improvement (aco_optimizer A) + 1"
    using aco_evaluate_effect(2) [OF ev] eq by simp
  from ev up eq h c
  show "\<exists>Z A1 A'. aco_evaluate A ant = Inr (Z, A1) \<and> update_pheromones A ant = Inr A' \<and>
            aco_optimizer A' = aco_optimizer A1 \<and>
            opt_objective (aco_optimizer A') = opt_objective (aco_optimizer A) @ [[Z]] \<and>
            (opt_n_steps_without_improvement (aco_optimizer A') = 0 \<or>
             opt_n_steps_without_improvement (aco_optimizer A') =
               opt_n_steps_without_improvement (aco_optimizer A) + 1)"
    by blast
next
  from aco_step_ok [OF assms(1,3,4,5)] obtain A' evaluated where
    st: "aco_step A ants = Inr (A', evaluated)"
    by blast
  from aco_step_history [OF st] have
    h: "history_length A' = history_length A +
           (if pheromones_are_individual (aco_policy A) then 2 * length evaluated
            else length evaluated + 1)"
    and ne: "evaluated \<noteq> []"
    by simp_all
  from ne have "0 < length evaluated" by simp
  with h have "history_length A + length evaluated < history_length A'"
    by (simp split: if_splits)
  with st h ne
  show "\<exists>A' evaluated. aco_step A ants = Inr (A', evaluated) \<and> evaluated \<noteq> [] \<and>
            history_length A' = history_length A +
              (if pheromones_are_individual (aco_policy A) then 2 * length evaluated
               else length evaluated + 1) \<and>
            history_length A + length evaluated < history_length A'"
    by blast
qed

text \<open>
  Both policies on the tiny instance, where the ant \<open>[0, 1, 2]\<close> scores \<open>0\<close> and the deposit
  is infinite: the update returns with the tuple \<open>[0]\<close> appended, and a step over two ants
  leaves three entries under MMAS and four under PACO.
\<close>

theorem update_pheromones_evaluates_witness:
  "colony_ok 3 2 (colony MMAS tiny_instance [0, 1, 2] 0) \<and>
   colony_ok 3 2 (colony PACO tiny_instance [0, 1, 2] 0) \<and>
   ant_ok 3 [0, 1, 2] \<and>
   list_all (\<lambda>a. ant_ok 3 (fst a)) [([0, 1, 2], 1), ([1, 0, 2], 2 :: real)] \<and>
   aco_n_ants (colony MMAS tiny_instance [0, 1, 2] 0) = 2 \<and>
   aco_n_ants (colony PACO tiny_instance [0, 1, 2] 0) = 2 \<and>
   (\<exists>A'. update_pheromones (colony MMAS tiny_instance [0, 1, 2] 0) [0, 1, 2] = Inr A' \<and>
         opt_objective (aco_optimizer A') = [[0]]) \<and>
   (\<exists>A'. update_pheromones (colony PACO tiny_instance [0, 1, 2] 0) [0, 1, 2] = Inr A' \<and>
         opt_objective (aco_optimizer A') = [[0]]) \<and>
   (\<exists>A' evaluated.
       aco_step (colony MMAS tiny_instance [0, 1, 2] 0) [([0, 1, 2], 1), ([1, 0, 2], 2)] =
         Inr (A', evaluated) \<and>
       length evaluated = 2 \<and> history_length A' = 3) \<and>
   (\<exists>A' evaluated.
       aco_step (colony PACO tiny_instance [0, 1, 2] 0) [([0, 1, 2], 1), ([1, 0, 2], 2)] =
         Inr (A', evaluated) \<and>
       length evaluated = 2 \<and> history_length A' = 4)"
proof -
  let ?M = "colony MMAS tiny_instance [0, 1, 2] 0"
  let ?P = "colony PACO tiny_instance [0, 1, 2] 0"
  let ?ants = "[([0, 1, 2], 1), ([1, 0, 2], 2 :: real)]"
  have okM: "colony_ok 3 2 ?M"
    by (simp add: colony_ok_def colony_def tiny_instance_def instance_ok_def has_shape_def
        inst_n_def nrows_def opt_ok_def started_optimizer_def start_def base_init_def)
  have okP: "colony_ok 3 2 ?P"
    by (simp add: colony_ok_def colony_def tiny_instance_def instance_ok_def has_shape_def
        inst_n_def nrows_def opt_ok_def started_optimizer_def start_def base_init_def)
  have ant: "ant_ok 3 [0, 1, 2]"
    by (simp add: ant_ok_def)
  have ants: "list_all (\<lambda>a. ant_ok 3 (fst a)) ?ants"
    by (simp add: ant_ok_def)
  have k: "0 < aco_n_ants ?M" "aco_n_ants ?M \<le> length ?ants"
    "0 < aco_n_ants ?P" "aco_n_ants ?P \<le> length ?ants"
    by (simp_all add: colony_def)
  have h0: "opt_objective (aco_optimizer ?M) = []" "opt_objective (aco_optimizer ?P) = []"
    by (simp_all add: colony_def started_optimizer_def start_def base_init_def)
  have pol: "\<not> pheromones_are_individual (aco_policy ?M)"
    "pheromones_are_individual (aco_policy ?P)"
    by (simp_all add: colony_def pheromones_are_individual_def)
  have zM: "fst (projr (aco_evaluate ?M [0, 1, 2])) = 0"
    by (simp add: kernel_defs objective_defs optimizer_defs colony_defs upt_rec)
  have zP: "fst (projr (aco_evaluate ?P [0, 1, 2])) = 0"
    by (simp add: kernel_defs objective_defs optimizer_defs colony_defs upt_rec)
  have lenM: "length (snd (projr (aco_step ?M ?ants))) = 2"
    by (simp add: kernel_defs objective_defs optimizer_defs colony_defs upt_rec aco_step_def
        np_argmin_def Let_def np_reciprocal_def np_maximum_def np_minimum_def)
  have lenP: "length (snd (projr (aco_step ?P ?ants))) = 2"
    by (simp add: kernel_defs objective_defs optimizer_defs colony_defs upt_rec aco_step_def
        np_argmin_def Let_def np_reciprocal_def paco_update_pheromones_def np_argsort_def)
  from update_pheromones_evaluates [OF okM ant ants k(1,2)] zM h0(1) pol(1) lenM
  have M: "\<exists>A'. update_pheromones ?M [0, 1, 2] = Inr A' \<and>
         opt_objective (aco_optimizer A') = [[0]]"
    "\<exists>A' evaluated. aco_step ?M ?ants = Inr (A', evaluated) \<and>
       length evaluated = 2 \<and> history_length A' = 3"
    by auto
  from update_pheromones_evaluates [OF okP ant ants k(3,4)] zP h0(2) pol(2) lenP
  have P: "\<exists>A'. update_pheromones ?P [0, 1, 2] = Inr A' \<and>
         opt_objective (aco_optimizer A') = [[0]]"
    "\<exists>A' evaluated. aco_step ?P ?ants = Inr (A', evaluated) \<and>
       length evaluated = 2 \<and> history_length A' = 4"
    by auto
  have na: "aco_n_ants ?M = 2" "aco_n_ants ?P = 2"
    by (simp_all add: colony_def)
  show ?thesis
    by (intro conjI okM okP ant ants na M P)
qed

section \<open>Division by the best score\<close>

lemma is_inf_np_div: "0 < r \<Longrightarrow> is_inf (np_div x r) = is_inf x"
  by (cases x) (simp_all add: is_inf_def)

lemma is_inf_paco_init_cell: "is_inf (paco_init_cell n t diff) = is_inf t"
  by (simp add: paco_init_cell_def Let_def is_inf_np_div)

lemma is_inf_np_reciprocal: "is_inf (np_reciprocal d z) = (d = 0)"
  by (simp add: np_reciprocal_def is_inf_def)

text \<open>
  Claim C9, as amended. \<open>MMAS.update_parameters\<close> divides by \<open>(1 - \<rho>) * Zbest\<close> and
  \<open>PACO.init_pheromones\<close> by \<open>Zbest\<close>, unclamped: the division is by zero, and its result
  infinite, exactly when \<open>Zbest = 0\<close> (or \<open>\<rho> = 1\<close>), and otherwise
  \<open>\<tau>\<^sub>m\<^sub>a\<^sub>x = 1 / ((1 - \<rho>) * Zbest)\<close> and no initial trail is infinite.
\<close>

theorem division_by_zero_iff:
  "is_inf (aco_tau_max (mmas_update_parameters A)) = (aco_rho A = 1 \<or> aco_Zbest A = 0) \<and>
   (aco_rho A \<noteq> 1 \<and> aco_Zbest A \<noteq> 0 \<longrightarrow>
      aco_tau_max (mmas_update_parameters A) =
        Fin (1 / ((1 - aco_rho A) * real_of_int (aco_Zbest A)))) \<and>
   is_inf (paco_initial_trail A) = (aco_Zbest A = 0) \<and>
   (length (aco_best A) = inst_n (aco_instance A) \<longrightarrow>
      (\<exists>A'. paco_init_pheromones A = Inr A' \<and>
            (\<forall>i k. i < inst_n (aco_instance A) \<and> k < inst_n (aco_instance A) \<longrightarrow>
               is_inf (aco_tau A' ! i ! k) = (aco_Zbest A = 0))))"
proof (intro conjI impI)
  show "is_inf (paco_initial_trail A) = (aco_Zbest A = 0)"
    by (simp add: paco_initial_trail_def is_inf_np_reciprocal)
next
  show "is_inf (aco_tau_max (mmas_update_parameters A)) = (aco_rho A = 1 \<or> aco_Zbest A = 0)"
    by (simp add: mmas_update_parameters_def Let_def is_inf_np_reciprocal)
next
  assume "aco_rho A \<noteq> 1 \<and> aco_Zbest A \<noteq> 0"
  then show "aco_tau_max (mmas_update_parameters A) =
      Fin (1 / ((1 - aco_rho A) * real_of_int (aco_Zbest A)))"
    by (simp add: mmas_update_parameters_def Let_def np_reciprocal_def)
next
  assume "length (aco_best A) = inst_n (aco_instance A)"
  then show "\<exists>A'. paco_init_pheromones A = Inr A' \<and>
      (\<forall>i k. i < inst_n (aco_instance A) \<and> k < inst_n (aco_instance A) \<longrightarrow>
         is_inf (aco_tau A' ! i ! k) = (aco_Zbest A = 0))"
    by (simp add: paco_init_pheromones_def paco_initial_trail_def Let_def
        is_inf_paco_init_cell is_inf_np_reciprocal)
qed

theorem division_by_zero_iff_witness:
  "aco_rho (colony MMAS unit_instance [0, 1, 2] 1) \<noteq> 1 \<and>
   aco_Zbest (colony MMAS unit_instance [0, 1, 2] 1) \<noteq> 0 \<and>
   length (aco_best (colony MMAS unit_instance [0, 1, 2] 1)) =
     inst_n (aco_instance (colony MMAS unit_instance [0, 1, 2] 1)) \<and>
   aco_tau_max (mmas_update_parameters (colony MMAS unit_instance [0, 1, 2] 1)) = Fin 2 \<and>
   (\<exists>A'. paco_init_pheromones (colony MMAS unit_instance [0, 1, 2] 1) = Inr A' \<and>
         \<not> is_inf (aco_tau A' ! 0 ! 0))"
proof -
  let ?A = "colony MMAS unit_instance [0, 1, 2] 1"
  have h: "aco_rho ?A \<noteq> 1" "aco_Zbest ?A \<noteq> 0"
    "length (aco_best ?A) = inst_n (aco_instance ?A)" "0 < inst_n (aco_instance ?A)"
    by (simp_all add: colony_def unit_instance_def inst_n_def nrows_def)
  have v: "1 / ((1 - aco_rho ?A) * real_of_int (aco_Zbest ?A)) = 2"
    by (simp add: colony_def)
  from division_by_zero_iff [of ?A] h v show ?thesis by auto
qed

text \<open>
  The claim as stated fails: nothing clamps the divisor. The job order has no tardiness on
  the tiny instance, so the best score is \<open>0\<close>; both policies then divide by zero, and the
  upper bound of MMAS and every initial trail of PACO are infinite.
\<close>

theorem division_by_zero_counterexample:
  "\<not> isl (aco_evaluate (colony MMAS tiny_instance [0, 1, 2] 0) [0, 1, 2]) \<and>
   fst (projr (aco_evaluate (colony MMAS tiny_instance [0, 1, 2] 0) [0, 1, 2])) = 0 \<and>
   aco_tau_max (mmas_update_parameters (colony MMAS tiny_instance [0, 1, 2] 0)) = PInf \<and>
   paco_initial_trail (colony PACO tiny_instance [0, 1, 2] 0) = PInf \<and>
   \<not> isl (paco_init_pheromones (colony PACO tiny_instance [0, 1, 2] 0)) \<and>
   aco_tau (projr (paco_init_pheromones (colony PACO tiny_instance [0, 1, 2] 0))) =
     [[PInf, PInf, PInf], [PInf, PInf, PInf], [PInf, PInf, PInf]]"
  by (simp add: kernel_defs objective_defs optimizer_defs colony_defs upt_rec
      paco_init_pheromones_def paco_initial_trail_def np_reciprocal_def paco_init_cell_def
      Let_def)

section \<open>The deposit of PACO\<close>

text \<open>
  Claim C3 at a concrete input: the best sequence is \<open>[1, 2, 0]\<close>, so job \<open>0\<close> stands at
  position \<open>2\<close> in it (\<open>argsort\<close> gives \<open>[2, 0, 1]\<close>), and the ant \<open>[0, 1, 2]\<close> scores \<open>1\<close>. The
  deposit on \<open>\<tau>[0, 0]\<close> is \<open>1 / \<surd>(|best[0] - 0| + 1) = 1 / \<surd>2\<close>, computed from the job at
  position \<open>0\<close> of the best sequence, not \<open>1 / \<surd>(|pos_best[0] - 0| + 1) = 1 / \<surd>3\<close>.
\<close>

theorem paco_deposit_uses_best_sequence:
  "\<not> isl (paco_update_pheromones (colony PACO unit_instance [1, 2, 0] 1) [0, 1, 2]) \<and>
   aco_tau (projr (paco_update_pheromones (colony PACO unit_instance [1, 2, 0] 1) [0, 1, 2]))
     ! 0 ! 0 = Fin (1 / 2 + 1 / sqrt 2) \<and>
   np_argsort [1, 2, 0] = [2, 0, 1] \<and>
   1 / 2 + 1 / sqrt 2 \<noteq>
     1 / 2 + 1 / (1 * sqrt (real_of_int (\<bar>np_argsort [1, 2, 0] ! 0 - 0\<bar> + 1)))"
  by (simp add: kernel_defs objective_defs optimizer_defs colony_defs Let_def
      paco_update_pheromones_def np_argsort_def upt_rec np_reciprocal_def)

section \<open>Local search at concrete inputs\<close>

lemmas search_defs = interchange_search_def swap_search_def swap_search_kernel_def kernel_wt_def
  dot_f32_def swap_jobs_def due_now_instance_def insertion_search_def insertion_search_kernel_def
  insert_move_def makespan_body_def

text \<open>
  Claim C2 at a concrete input. Three unit-weight jobs with processing times \<open>3, 2, 1\<close> on one
  machine, all due at \<open>0\<close>, incumbent \<open>[0, 1, 2]\<close> with weighted tardiness \<open>14\<close>. Exchanging
  positions \<open>2\<close> and \<open>0\<close> gives \<open>[2, 1, 0]\<close> with weighted tardiness \<open>10\<close>, the best single
  exchange; \<open>interchange_search\<close> returns \<open>[1, 0, 2]\<close> with weighted tardiness \<open>13\<close>, the best
  exchange of two adjacent positions.
\<close>

theorem interchange_search_scans_adjacent_pairs_only:
  "interchange_search (due_now_instance [3, 2, 1]) [0, 1, 2] =
     Inr ([1, 0, 2], True, (due_now_instance [3, 2, 1])\<lparr>inst_c := [[3], [4], [6]]\<rparr>) \<and>
   swap_jobs [0, 1, 2] 2 0 = [2, 1, 0] \<and>
   map_sum id fst (weighted_tardiness (due_now_instance [3, 2, 1]) [0, 1, 2] True) = Inr 14 \<and>
   map_sum id fst (weighted_tardiness (due_now_instance [3, 2, 1]) [1, 0, 2] True) = Inr 13 \<and>
   map_sum id fst (weighted_tardiness (due_now_instance [3, 2, 1]) [2, 1, 0] True) = Inr 10"
  by (simp add: search_defs kernel_defs objective_defs upt_rec)

text \<open>
  Claim C8 at a concrete input. Three unit-weight jobs with processing times \<open>2, 3, 1\<close> on one
  machine, all due at \<open>0\<close>, incumbent \<open>[0, 1, 2]\<close> with weighted tardiness \<open>13\<close>. The single
  insertion of position \<open>2\<close> at position \<open>0\<close> gives \<open>[2, 0, 1]\<close> with weighted tardiness \<open>10\<close>,
  the best one. The kernel scores the pair \<open>(2, 1)\<close> on the array that still holds the two
  earlier moves, which is \<open>[2, 0, 1]\<close>, keeps \<open>(2, 1)\<close> as the best pair, and applies it to the
  incumbent: \<open>insertion_search\<close> returns \<open>[0, 2, 1]\<close> with weighted tardiness \<open>11\<close>, and leaves
  the caller's array as \<open>[2, 0, 1]\<close>.
\<close>

theorem insertion_search_accumulates_moves:
  "insertion_search (due_now_instance [2, 3, 1]) [0, 1, 2] =
     Inr ([0, 2, 1], True, (due_now_instance [2, 3, 1])\<lparr>inst_c := [[1], [3], [6]]\<rparr>, [2, 0, 1]) \<and>
   insert_move [0, 1, 2] 2 0 = [2, 0, 1] \<and>
   insert_move [0, 1, 2] 2 1 = [0, 2, 1] \<and>
   map_sum id fst (weighted_tardiness (due_now_instance [2, 3, 1]) [0, 1, 2] True) = Inr 13 \<and>
   map_sum id fst (weighted_tardiness (due_now_instance [2, 3, 1]) [2, 0, 1] True) = Inr 10 \<and>
   map_sum id fst (weighted_tardiness (due_now_instance [2, 3, 1]) [0, 2, 1] True) = Inr 11"
  by (simp add: search_defs kernel_defs objective_defs upt_rec)

text \<open>
  The kernels score a candidate with the due dates and weights of the jobs that stood at
  each position in the incoming solution. On two jobs with processing times \<open>5, 5\<close>, due
  dates \<open>1, 1\<close> and weights \<open>1, 2\<close>, the order \<open>[1, 0]\<close> has weighted tardiness \<open>17\<close> against
  \<open>22\<close> for \<open>[0, 1]\<close>, yet no local search moves away from \<open>[0, 1]\<close>.
\<close>

lemma local_search_scores_by_incoming_position:
  "map_sum id fst (weighted_tardiness
     \<lparr>inst_p = [[5], [5]], inst_c = [[0], [0]], inst_d = [1, 1], inst_w = [1, 2]\<rparr>
     [0, 1] True) = Inr 22 \<and>
   map_sum id fst (weighted_tardiness
     \<lparr>inst_p = [[5], [5]], inst_c = [[0], [0]], inst_d = [1, 1], inst_w = [1, 2]\<rparr>
     [1, 0] True) = Inr 17 \<and>
   map_sum id (\<lambda>r. (fst r, fst (snd r))) (swap_search
     \<lparr>inst_p = [[5], [5]], inst_c = [[0], [0]], inst_d = [1, 1], inst_w = [1, 2]\<rparr>
     [0, 1]) = Inr ([0, 1], False) \<and>
   map_sum id (\<lambda>r. (fst r, fst (snd r))) (insertion_search
     \<lparr>inst_p = [[5], [5]], inst_c = [[0], [0]], inst_d = [1, 1], inst_w = [1, 2]\<rparr>
     [0, 1]) = Inr ([0, 1], False)"
  by (simp add: search_defs kernel_defs objective_defs upt_rec)

section \<open>Permutations out of the constructors\<close>

lemma is_permutation_iff_mset:
  "is_permutation n s \<longleftrightarrow> mset s = mset (map int [0..<n])"
proof
  assume "is_permutation n s"
  then show "mset s = mset (map int [0..<n])" by (rule is_permutation_mset)
next
  assume m: "mset s = mset (map int [0..<n])"
  have "sorted (map int [0..<n])"
    by (rule sorted_wrt_mono_rel [of _ "\<lambda>a b. a < b"]) (auto simp: sorted_wrt_map intro: sorted_wrt_upt)
  with m have "sort s = map int [0..<n]"
    by (intro properties_for_sort) auto
  then show "is_permutation n s" by (simp add: is_permutation_def)
qed

lemma permutation_by_check:
  assumes len: "length s = n" and uniq: "n = length (remdups s)"
    and hi: "list_all (\<lambda>x. x < int n) s" and lo: "list_all (\<lambda>x. 0 \<le> x) s"
  shows "is_permutation n s"
proof -
  from len uniq have d: "distinct s"
    by (metis distinct_remdups length_remdups_eq)
  have sub: "set s \<subseteq> int ` {0..<n}"
  proof
    fix x assume "x \<in> set s"
    with hi lo have "0 \<le> x" "x < int n" by (auto simp: list_all_iff)
    then have "x = int (nat x)" "nat x \<in> {0..<n}" by auto
    then show "x \<in> int ` {0..<n}" by blast
  qed
  have "card (set s) = n" using d len by (simp add: distinct_card)
  moreover have "card (int ` {0..<n}) = n" by (simp add: card_image)
  ultimately have "set s = int ` {0..<n}"
    using sub by (intro card_subset_eq) auto
  then have "set s = set (map int [0..<n])" by simp
  moreover have "distinct (map int [0..<n])" by (simp add: distinct_map)
  ultimately have "mset s = mset (map int [0..<n])"
    using d by (simp only: set_eq_iff_mset_eq_distinct)
  then show ?thesis by (simp add: is_permutation_iff_mset)
qed

lemma length_mmas_place: "length (mmas_place mem choice candidates ks) = length ks"
  by (induction ks arbitrary: candidates) auto

lemma mmas_create_solution_permutation:
  assumes "is_permutation n best"
  shows "is_permutation n (mmas_create_solution n best mem choice)"
proof -
  define solution where
    "solution = mmas_place mem choice (map (read_unchecked mem best) [0..<n]) [0..<n]"
  have len: "length solution = n" by (simp add: solution_def length_mmas_place)
  show ?thesis
  proof (cases "n = length (remdups solution) \<and> list_all (\<lambda>x. x < int n) solution \<and>
            list_all (\<lambda>x. 0 \<le> x) solution")
    case True
    then have "is_permutation n solution"
      using permutation_by_check [OF len] by blast
    with True show ?thesis by (simp add: mmas_create_solution_def solution_def Let_def)
  next
    case False
    then have "mmas_create_solution n best mem choice = best"
      unfolding mmas_create_solution_def Let_def solution_def [symmetric] by (rule if_not_P)
    with assms show ?thesis by simp
  qed
qed

lemma mset_swap_jobs:
  "i < length s \<Longrightarrow> j < length s \<Longrightarrow> mset (swap_jobs s i j) = mset s"
  unfolding swap_jobs_def by (simp add: mset_swap)

lemma swap_jobs_permutation:
  "is_permutation n s \<Longrightarrow> i < length s \<Longrightarrow> j < length s \<Longrightarrow> is_permutation n (swap_jobs s i j)"
  by (simp add: is_permutation_iff_mset mset_swap_jobs)

lemma swap_loop_index:
  assumes "swap_loop p d w solution is c bestZ best_idx = Inr (c', z, i)"
  shows "i = best_idx \<or> i \<in> int ` set is"
  using assms
proof (induction "is" arbitrary: c bestZ best_idx)
  case Nil
  then show ?case by simp
next
  case (Cons a "is")
  from Cons.prems obtain currentZ c1 where
    k: "kernel_wt c p d w (swap_jobs solution a (a + 1)) = Inr (currentZ, c1)"
    by (auto split: sum.splits)
  show ?case
  proof (cases "currentZ < bestZ")
    case True
    with Cons.prems k have "swap_loop p d w solution is c1 currentZ (int a) = Inr (c', z, i)"
      by simp
    from Cons.IH [OF this] show ?thesis by auto
  next
    case False
    with Cons.prems k have "swap_loop p d w solution is c1 bestZ best_idx = Inr (c', z, i)"
      by simp
    from Cons.IH [OF this] show ?thesis by auto
  qed
qed

lemma swap_search_kernel_permutation:
  assumes "swap_search_kernel c p d w solution = Inr (c', new_sol, improvement)"
    and "is_permutation n solution"
  shows "is_permutation n new_sol"
proof -
  from assms(1) obtain bestZ c1 where "kernel_wt c p d w solution = Inr (bestZ, c1)"
    by (auto simp: swap_search_kernel_def split: sum.splits)
  with assms(1) obtain c2 z i where
    loop: "swap_loop p d w solution [0..<length solution - 1] c1 bestZ (- 1) = Inr (c2, z, i)"
    and res: "new_sol = (if i > - 1 then swap_jobs solution (nat i) (nat i + 1) else solution)"
    by (auto simp: swap_search_kernel_def split: sum.splits prod.splits if_splits)
  show ?thesis
  proof (cases "i > - 1")
    case True
    with swap_loop_index [OF loop] have "i \<in> int ` set [0..<length solution - 1]" by auto
    then have "nat i < length solution" "nat i + 1 < length solution" by auto
    with res True assms(2) show ?thesis by (simp add: swap_jobs_permutation)
  next
    case False
    with res assms(2) show ?thesis by simp
  qed
qed

lemma swap_search_permutation:
  assumes "swap_search I solution = Inr (new_sol, improvement, I')"
    and "is_permutation n solution"
  shows "is_permutation n new_sol"
  using assms swap_search_kernel_permutation
  by (fastforce simp: swap_search_def split: option.splits sum.splits prod.splits)

lemma interchange_search_eq_swap_search:
  "interchange_search I solution = swap_search I solution"
  by (simp add: interchange_search_def swap_search_def)

lemma interchange_search_permutation:
  assumes "interchange_search I solution = Inr (new_sol, improvement, I')"
    and "is_permutation n solution"
  shows "is_permutation n new_sol"
  using assms swap_search_permutation by (simp add: interchange_search_eq_swap_search)

lemma mset_insert_move:
  assumes "j < i" "i < length s"
  shows "mset (insert_move s i j) = mset s"
proof -
  have "s = take j s @ take (i - j) (drop j s) @ drop i s"
    using assms by (metis append_take_drop_id drop_drop add.commute le_add_diff_inverse less_imp_le)
  also have "drop i s = s ! i # drop (i + 1) s"
    using assms(2) by (simp add: Cons_nth_drop_Suc)
  finally have "mset s = mset (take j s @ take (i - j) (drop j s) @ s ! i # drop (i + 1) s)"
    by simp
  then show ?thesis by (simp add: insert_move_def)
qed

lemma insertion_inner_index:
  assumes "insertion_inner p d w i js (c, sol, bestZ, bi, bj) = Inr (c', sol', z, bi', bj')"
  shows "(bi' = bi \<and> bj' = bj) \<or> (bi' = int i \<and> bj' \<in> int ` set js)"
  using assms
proof (induction js arbitrary: c sol bestZ bi bj)
  case Nil
  then show ?case by simp
next
  case (Cons j js)
  from Cons.prems obtain currentZ c1 where
    k: "kernel_wt c p d w (insert_move sol i j) = Inr (currentZ, c1)"
    by (auto simp: Let_def split: sum.splits)
  show ?case
  proof (cases "currentZ < bestZ")
    case True
    with Cons.prems k have
      "insertion_inner p d w i js (c1, insert_move sol i j, currentZ, int i, int j) =
         Inr (c', sol', z, bi', bj')"
      by (simp add: Let_def)
    from Cons.IH [OF this] show ?thesis by auto
  next
    case False
    with Cons.prems k have
      "insertion_inner p d w i js (c1, insert_move sol i j, bestZ, bi, bj) =
         Inr (c', sol', z, bi', bj')"
      by (simp add: Let_def)
    from Cons.IH [OF this] show ?thesis by auto
  qed
qed

lemma insertion_outer_index:
  assumes "insertion_outer p d w is (c, sol, bestZ, bi, bj) = Inr (c', sol', z, bi', bj')"
  shows "(bi' = bi \<and> bj' = bj) \<or> (\<exists>i\<in>set is. \<exists>j<i. bi' = int i \<and> bj' = int j)"
  using assms
proof (induction "is" arbitrary: c sol bestZ bi bj)
  case Nil
  then show ?case by simp
next
  case (Cons i "is")
  from Cons.prems obtain c1 sol1 z1 bi1 bj1 where
    inner: "insertion_inner p d w i [0..<i] (c, sol, bestZ, bi, bj) = Inr (c1, sol1, z1, bi1, bj1)"
    and outer: "insertion_outer p d w is (c1, sol1, z1, bi1, bj1) = Inr (c', sol', z, bi', bj')"
    by (auto split: sum.splits)
  from insertion_inner_index [OF inner]
  have one: "(bi1 = bi \<and> bj1 = bj) \<or> (\<exists>j<i. bi1 = int i \<and> bj1 = int j)" by auto
  from Cons.IH [OF outer] one show ?case by auto
qed

lemma insertion_search_kernel_permutation:
  assumes "insertion_search_kernel c p d w solution = Inr (c', solution2, new_sol, improvement)"
    and "is_permutation n solution"
  shows "is_permutation n new_sol"
proof -
  from assms(1) obtain bestZ c1 where "kernel_wt c p d w solution = Inr (bestZ, c1)"
    by (auto simp: insertion_search_kernel_def split: sum.splits)
  with assms(1) obtain c2 sol2 z bi bj where
    loop: "insertion_outer p d w [0..<length solution] (c1, solution, bestZ, - 1, - 1) =
             Inr (c2, sol2, z, bi, bj)"
    and res: "new_sol = (if bi > - 1 then insert_move solution (nat bi) (nat bj) else solution)"
    by (auto simp: insertion_search_kernel_def split: sum.splits prod.splits if_splits)
  show ?thesis
  proof (cases "bi > - 1")
    case True
    with insertion_outer_index [OF loop] obtain i j where
      "i < length solution" "j < i" "bi = int i" "bj = int j"
      by auto
    with res True assms(2) show ?thesis
      by (simp add: is_permutation_iff_mset mset_insert_move)
  next
    case False
    with res assms(2) show ?thesis by simp
  qed
qed

lemma insertion_search_permutation:
  assumes "insertion_search I solution = Inr (new_sol, improvement, I', solution2)"
    and "is_permutation n solution"
  shows "is_permutation n new_sol"
  using assms insertion_search_kernel_permutation
  by (fastforce simp: insertion_search_def split: option.splits sum.splits prod.splits)

lemma local_search_rounds_permutation:
  assumes "local_search_rounds k ls I solution = Inr (solution', I')"
    and "is_permutation n solution"
  shows "is_permutation n solution'"
  using assms
proof (induction k ls I solution rule: local_search_rounds.induct)
  case (1 ls I solution)
  then show ?case by simp
next
  case (2 k I solution)
  then show ?case by simp
next
  case (3 k I solution)
  from 3(2) obtain s1 imp I1 where sw: "swap_search I solution = Inr (s1, imp, I1)"
    by (auto split: sum.splits)
  have p1: "is_permutation n s1" by (rule swap_search_permutation [OF sw 3(3)])
  show ?case
  proof (cases imp)
    case True
    with 3(2) sw have "local_search_rounds k LsSwap I1 s1 = Inr (solution', I')" by simp
    with 3(1) [OF sw refl refl _ _ p1] True show ?thesis by simp
  next
    case False
    with 3(2) sw p1 show ?thesis by simp
  qed
next
  case (4 k I solution)
  from 4(2) obtain s1 imp I1 where sw: "interchange_search I solution = Inr (s1, imp, I1)"
    by (auto split: sum.splits)
  have p1: "is_permutation n s1" by (rule interchange_search_permutation [OF sw 4(3)])
  show ?case
  proof (cases imp)
    case True
    with 4(2) sw have "local_search_rounds k LsInterchange I1 s1 = Inr (solution', I')" by simp
    with 4(1) [OF sw refl refl _ _ p1] True show ?thesis by simp
  next
    case False
    with 4(2) sw p1 show ?thesis by simp
  qed
next
  case (5 k I solution)
  from 5(2) obtain s1 imp I1 s2 where
    sw: "insertion_search I solution = Inr (s1, imp, I1, s2)"
    by (auto split: sum.splits)
  have p1: "is_permutation n s1" by (rule insertion_search_permutation [OF sw 5(3)])
  show ?case
  proof (cases imp)
    case True
    with 5(2) sw have "local_search_rounds k LsInsertion I1 s1 = Inr (solution', I')" by simp
    with 5(1) [OF sw refl refl refl _ _ p1] True show ?thesis by simp
  next
    case False
    with 5(2) sw p1 show ?thesis by simp
  qed
qed

lemma mset_remove_at:
  "i < length a \<Longrightarrow> add_mset (a ! i) (mset (remove_at a i)) = mset a"
proof -
  assume i: "i < length a"
  have "a = take i a @ a ! i # drop (Suc i) a"
    using i by (simp add: id_take_nth_drop)
  then have "mset a = mset (take i a @ a ! i # drop (Suc i) a)" by simp
  then show ?thesis by (simp add: remove_at_def)
qed

lemma length_remove_at: "i < length a \<Longrightarrow> length (remove_at a i) = length a - 1"
  by (auto simp: remove_at_def)

lemma shift_in_remove_at: "i < length a \<Longrightarrow> shift_in a i x = remove_at a i @ [x]"
  by (simp add: shift_in_def remove_at_def)

lemma paco_place_mset:
  assumes len: "length best = n"
    and valid: "\<And>k. k < n \<Longrightarrow> choice k < min 5 (n - k)"
  shows "k0 \<le> n \<Longrightarrow> length candidates = min 5 (n - k0) \<Longrightarrow> next_id = min n (k0 + 5) \<Longrightarrow>
         mset (paco_place mem choice n best next_id candidates [k0..<n]) =
           mset candidates + mset (drop next_id best)"
proof (induction "n - k0" arbitrary: k0 candidates next_id)
  case 0
  then show ?case using len by simp
next
  case (Suc x)
  then have k0: "k0 < n" by simp
  then have upt: "[k0..<n] = k0 # [Suc k0..<n]" by (simp add: upt_rec)
  from valid [OF k0] Suc.prems have c: "choice k0 < length candidates" by simp
  have rd: "read_unchecked mem candidates (choice k0) = candidates ! choice k0"
    using c by (simp add: read_unchecked_def)
  have x: "x = n - Suc k0" using Suc.hyps(2) by simp
  show ?case
  proof (cases "next_id < n")
    case True
    then have k5: "k0 + 5 < n" "next_id = k0 + 5" using Suc.prems by auto
    let ?cands = "shift_in candidates (choice k0) (read_unchecked mem best next_id)"
    have rb: "read_unchecked mem best next_id = best ! next_id"
      using True len by (simp add: read_unchecked_def)
    have l': "length ?cands = min 5 (n - Suc k0)"
      using c k5 Suc.prems by (simp add: shift_in_remove_at length_remove_at)
    have n': "Suc next_id = min n (Suc k0 + 5)" using k5 by simp
    have "mset (paco_place mem choice n best (Suc next_id) ?cands [Suc k0..<n]) =
          mset ?cands + mset (drop (Suc next_id) best)"
      using Suc.hyps(1) [OF x _ l' n'] k0 by simp
    moreover have "drop next_id best = best ! next_id # drop (Suc next_id) best"
      using True len by (simp add: Cons_nth_drop_Suc)
    ultimately show ?thesis
      using True mset_remove_at [OF c] c
      by (simp add: upt rd rb shift_in_remove_at)
  next
    case False
    then have nid: "next_id = n" "n \<le> k0 + 5" using Suc.prems by auto
    let ?cands = "remove_at candidates (choice k0)"
    have l': "length ?cands = min 5 (n - Suc k0)"
      using c nid Suc.prems by (simp add: length_remove_at)
    have n': "next_id = min n (Suc k0 + 5)" using nid by simp
    have "mset (paco_place mem choice n best next_id ?cands [Suc k0..<n]) =
          mset ?cands + mset (drop next_id best)"
      using Suc.hyps(1) [OF x _ l' n'] k0 by simp
    then show ?thesis
      using False mset_remove_at [OF c]
      by (simp add: upt rd)
  qed
qed

lemma paco_create_solution_permutation:
  assumes "is_permutation n best" and "5 \<le> n"
    and "\<And>k. k < n \<Longrightarrow> choice k < min 5 (n - k)"
  shows "is_permutation n (paco_create_solution n best mem choice)"
proof -
  have len: "length best = n" by (rule is_permutation_length [OF assms(1)])
  have cands: "map (read_unchecked mem best) [0..<5] = take 5 best"
    using len assms(2) by (auto simp: read_unchecked_def list_eq_iff_nth_eq)
  have "mset (paco_create_solution n best mem choice) = mset (take 5 best) + mset (drop 5 best)"
    unfolding paco_create_solution_def cands
    using paco_place_mset [OF len assms(3), of 0 "take 5 best" 5 mem] len assms(2)
    by simp
  also have "\<dots> = mset best" by (metis append_take_drop_id mset_append)
  finally show ?thesis using assms(1) by (simp add: is_permutation_iff_mset)
qed

lemma has_shape_take: "has_shape n m a \<Longrightarrow> k \<le> n \<Longrightarrow> has_shape k m (take k a)"
  by (auto simp: has_shape_def list_all_iff dest: in_set_takeD)

lemma has_shape_append_drop:
  "has_shape k m C \<Longrightarrow> has_shape n m a \<Longrightarrow> k \<le> n \<Longrightarrow> has_shape n m (C @ drop k a)"
  by (auto simp: has_shape_def list_all_iff dest: in_set_dropD)

lemma has_shape_map_rows:
  assumes "has_shape n m p" "\<forall>s\<in>set sol. 0 \<le> s \<and> s < int n"
  shows "has_shape (length sol) m (map (\<lambda>s. p ! nat s) sol)"
  using assms by (auto simp: has_shape_def list_all_iff list_all_length)

lemma last_column_Some: "has_shape n m C \<Longrightarrow> 0 < m \<Longrightarrow> \<exists>col. last_column C = Some col"
  by (simp add: last_column_shape)

lemma neh_partial_wt_ok:
  assumes ok: "instance_ok n m I" and m: "0 < m" and ne: "partial \<noteq> []"
    and le: "length partial \<le> n" and rng: "\<forall>s\<in>set partial. 0 \<le> s \<and> s < int n"
  shows "\<exists>wt I'. neh_partial_wt I partial = Inr (wt, I') \<and> instance_ok n m I' \<and>
           inst_p I' = inst_p I \<and> inst_d I' = inst_d I \<and> inst_w I' = inst_w I"
proof -
  let ?k = "length partial"
  from ok have shp: "has_shape n m (inst_p I)" and shc: "has_shape n m (inst_c I)"
    and ld: "length (inst_d I) = n" and lw: "length (inst_w I) = n"
    by (simp_all add: instance_ok_def)
  have lp: "length (inst_p I) = n" using shp by (simp add: has_shapeD)
  have fp: "fancy_index (inst_p I) partial = Some (map (\<lambda>s. inst_p I ! nat s) partial)"
    using rng lp by (intro fancy_index_in_range) simp
  have fw: "fancy_index (inst_w I) partial = Some (map (\<lambda>s. inst_w I ! nat s) partial)"
    using rng lw by (intro fancy_index_in_range) simp
  have fd: "fancy_index (inst_d I) partial = Some (map (\<lambda>s. inst_d I ! nat s) partial)"
    using rng ld by (intro fancy_index_in_range) simp
  have sp: "has_shape ?k m (map (\<lambda>s. inst_p I ! nat s) partial)"
    by (rule has_shape_map_rows [OF shp rng])
  have sc: "has_shape ?k m (take ?k (inst_c I))"
    by (rule has_shape_take [OF shc le])
  have k: "0 < ?k" using ne by simp
  from computation_times_rec [OF sp sc k m] obtain C where
    C: "computation_times (take ?k (inst_c I)) (map (\<lambda>s. inst_p I ! nat s) partial) = Some C"
    "has_shape ?k m C"
    by blast
  from last_column_Some [OF C(2) m] obtain col where col: "last_column C = Some col" by blast
  have "has_shape n m (C @ drop ?k (inst_c I))"
    by (rule has_shape_append_drop [OF C(2) shc le])
  then have "instance_ok n m (I\<lparr>inst_c := C @ drop ?k (inst_c I)\<rparr>)"
    using ok by (simp add: instance_ok_def)
  then show ?thesis
    by (simp add: neh_partial_wt_def fp fw fd C(1) col)
qed

lemma neh_positions_ok:
  assumes m: "0 < m" and le: "length solution < n"
    and rng: "\<forall>s\<in>set solution. 0 \<le> s \<and> s < int n" and x: "0 \<le> x" "x < int n"
  shows "instance_ok n m I \<Longrightarrow>
         \<exists>b I'. neh_positions I solution x hs bw bi = Inr (b, I') \<and> instance_ok n m I' \<and>
           inst_d I' = inst_d I"
proof (induction hs arbitrary: I bw bi)
  case Nil
  then show ?case by simp
next
  case (Cons h hs)
  let ?partial = "take h solution @ [x] @ drop h solution"
  have ne: "?partial \<noteq> []" by simp
  have len: "length ?partial \<le> n" using le by simp
  have r: "\<forall>s\<in>set ?partial. 0 \<le> s \<and> s < int n"
    using rng x by (auto dest: in_set_takeD in_set_dropD)
  from neh_partial_wt_ok [OF Cons.prems m ne len r] obtain wt I1 where
    w: "neh_partial_wt I ?partial = Inr (wt, I1)" and ok1: "instance_ok n m I1"
    and d1: "inst_d I1 = inst_d I"
    by blast
  have w': "neh_partial_wt I (take h solution @ x # drop h solution) = Inr (wt, I1)"
    using w by simp
  show ?case
    using Cons.IH [OF ok1, of "Some (sint wt)" h] Cons.IH [OF ok1, of bw bi] d1
    by (simp add: w')
qed

lemma neh_insert_all_ok:
  assumes m: "0 < m"
  shows "instance_ok n m I \<Longrightarrow> length solution + length xs \<le> n \<Longrightarrow>
         \<forall>s\<in>set solution \<union> set xs. 0 \<le> s \<and> s < int n \<Longrightarrow>
         \<exists>sol I'. neh_insert_all I solution xs = Inr (sol, I') \<and>
           mset sol = mset solution + mset xs"
proof (induction xs arbitrary: I solution)
  case Nil
  then show ?case by simp
next
  case (Cons x xs)
  have le: "length solution < n" using Cons.prems(2) by simp
  have rng: "\<forall>s\<in>set solution. 0 \<le> s \<and> s < int n" and x: "0 \<le> x" "x < int n"
    using Cons.prems(3) by auto
  from neh_positions_ok [OF m le rng x Cons.prems(1)] obtain b I1 where
    pos: "neh_positions I solution x [0..<length solution + 1] None 0 = Inr (b, I1)"
    and ok1: "instance_ok n m I1"
    by blast
  let ?sol = "take b solution @ [x] @ drop b solution"
  have l1: "length ?sol + length xs \<le> n" using Cons.prems(2) by simp
  have r1: "\<forall>s\<in>set ?sol \<union> set xs. 0 \<le> s \<and> s < int n"
    using Cons.prems(3) by (auto dest: in_set_takeD in_set_dropD)
  from Cons.IH [OF ok1 l1 r1] obtain sol I' where
    rec: "neh_insert_all I1 ?sol xs = Inr (sol, I')" and ms: "mset sol = mset ?sol + mset xs"
    by blast
  have "mset ?sol = add_mset x (mset solution)"
    by (metis append_take_drop_id mset_append append_Cons append_Nil mset.simps(2)
        union_mset_add_mset_right)
  with rec ms pos show ?case by simp
qed

lemma np_argsort_mset: "mset (np_argsort xs) = mset (map int [0..<length xs])"
  unfolding np_argsort_def by (metis mset_map mset_sort)

lemma neh_algorithm_permutation:
  assumes ok: "instance_ok n m I" and n: "0 < n" and m: "0 < m"
  shows "\<exists>sol I'. neh_algorithm I = Inr (sol, I') \<and> is_permutation n sol"
proof -
  let ?idx = "np_argsort (map sint (inst_d I))"
  from ok have ld: "length (inst_d I) = n" by (simp add: instance_ok_def)
  have ms: "mset ?idx = mset (map int [0..<n])"
    using np_argsort_mset [of "map sint (inst_d I)"] ld by simp
  then have "size (mset ?idx) = n" by simp
  then have li: "length ?idx = n" by simp
  with n obtain x xs where idx: "?idx = x # xs" by (cases ?idx) auto
  have "set ?idx = int ` {0..<n}"
    using arg_cong [OF ms, of set_mset] by simp
  then have rng: "\<forall>s\<in>set [x] \<union> set xs. 0 \<le> s \<and> s < int n"
    using idx by auto
  have len: "length [x] + length xs \<le> n" using li idx by simp
  from neh_insert_all_ok [OF m ok len rng] obtain sol I' where
    r: "neh_insert_all I [x] xs = Inr (sol, I')" and "mset sol = mset [x] + mset xs"
    by blast
  then have "mset sol = mset ?idx" by (simp add: idx)
  with ms have "is_permutation n sol" by (simp add: is_permutation_iff_mset)
  with r show ?thesis by (simp add: neh_algorithm_def idx)
qed

text \<open>
  Claim C4 at a concrete input. On an instance of three jobs with best sequence \<open>[0, 1, 2]\<close>,
  \<open>PACO.create_solution\<close> fills its window of five candidates from \<open>best[0..4]\<close>, reading two
  values past the end of the array. When the first index chosen is \<open>3\<close>, the result is
  \<open>[7, 0, 1]\<close> if the memory holds \<open>7\<close> and \<open>[0, 0, 1]\<close> if it holds \<open>0\<close>; either is returned as
  it is and is not a permutation of the jobs.
\<close>

theorem paco_create_solution_small_instance:
  "paco_create_solution 3 [0, 1, 2] (\<lambda>i. 7) (\<lambda>k. if k = 0 then 3 else 0) = [7, 0, 1] \<and>
   paco_create_solution 3 [0, 1, 2] (\<lambda>i. 0) (\<lambda>k. if k = 0 then 3 else 0) = [0, 0, 1] \<and>
   is_permutation 3 [0, 1, 2] \<and> \<not> is_permutation 3 [7, 0, 1] \<and> \<not> is_permutation 3 [0, 0, 1]"
  by (simp add: paco_create_solution_def read_unchecked_def shift_in_def remove_at_def
      is_permutation_def upt_rec)

end
